theory Spec2Isabelle
  imports Complex_Main "HOL-Library.Word"
begin

unbundle bit_operations_syntax

section \<open>Code units, strings and errors\<close>

text \<open>
  The decoder works on \<^verbatim>\<open>const wchar_t *data\<close>, the \<^verbatim>\<open>c_str()\<close> of a
  \<^verbatim>\<open>std::wstring\<close>, and an \<^verbatim>\<open>int &pos\<close>. A code unit is its non-negative
  number, a wide string the list of its code units and the cursor an index into it.
  \<open>data_at data pos\<close> is \<^verbatim>\<open>data[pos]\<close>: the buffer of \<^verbatim>\<open>c_str()\<close> holds the
  string's code units followed by the terminator \<open>0\<close>. The source never reads behind
  the first code unit \<open>0\<close> it meets, so the value chosen for those reads is never used.
\<close>

type_synonym wchar = nat
type_synonym wstring = "wchar list"
type_synonym int32 = "32 word"

abbreviation Lc :: "char \<Rightarrow> wchar" where
  "Lc c \<equiv> of_char c"

abbreviation L :: "string \<Rightarrow> wstring" where
  "L s \<equiv> map of_char s"

definition data_at :: "wstring \<Rightarrow> nat \<Rightarrow> wchar" where
  "data_at data pos = (if pos < length data then data ! pos else 0)"

text \<open>
  \<^verbatim>\<open>raise_error< E >(message, position)\<close> throws \<^verbatim>\<open>E\<close> with the text
  \<^verbatim>\<open>message at position\<close>; both parts are kept.
\<close>

datatype error =
    InvalidCharacter string nat
  | UnexpectedEof string nat

subsection \<open>The character classes of the C library\<close>

text \<open>
  \<^verbatim>\<open>iswdigit\<close> and \<^verbatim>\<open>iswxdigit\<close> are the same in every locale. \<^verbatim>\<open>iswspace\<close>,
  \<^verbatim>\<open>iswprint\<close> and \<^verbatim>\<open>isupper\<close> are those of the \<^verbatim>\<open>"C"\<close> locale, in which a
  program runs that never calls \<^verbatim>\<open>setlocale\<close> (the sources do not).
\<close>

definition iswdigit :: "wchar \<Rightarrow> bool" where
  "iswdigit c = (48 \<le> c \<and> c \<le> 57)"

definition iswxdigit :: "wchar \<Rightarrow> bool" where
  "iswxdigit c = (iswdigit c \<or> (65 \<le> c \<and> c \<le> 70) \<or> (97 \<le> c \<and> c \<le> 102))"

definition isupper :: "wchar \<Rightarrow> bool" where
  "isupper c = (65 \<le> c \<and> c \<le> 90)"

definition iswspace :: "wchar \<Rightarrow> bool" where
  "iswspace c = (c = 32 \<or> (9 \<le> c \<and> c \<le> 13))"

definition iswprint :: "wchar \<Rightarrow> bool" where
  "iswprint c = (32 \<le> c \<and> c \<le> 126)"

section \<open>Values\<close>

text \<open>
  Modelled from the spec: \<^verbatim>\<open>json/value.h\<close> is not among the sources. \<^verbatim>\<open>Value\<close> is
  the tagged union of the specification's data model: Null, Boolean, Integer (a 32-bit
  \<^verbatim>\<open>int\<close>), Float (a \<^verbatim>\<open>double\<close>), String, List and Object. The type \<open>'f\<close> stands
  for \<^verbatim>\<open>double\<close>. \<^verbatim>\<open>Value::List\<close> is a sequence filled by \<^verbatim>\<open>push_back\<close>.
  \<^verbatim>\<open>Value::Object\<close> is a mapping from String keys to Values whose \<^verbatim>\<open>insert\<close> keeps
  the value already stored under a key; the source walks it with an iterator of
  \<^verbatim>\<open>first\<close>/\<^verbatim>\<open>second\<close> pairs, as over a \<^verbatim>\<open>std::map\<close>, so it is an association
  list with ascending distinct keys.
\<close>

datatype 'f Value =
    Null
  | Boolean bool
  | Integer int32
  | Float 'f
  | String wstring
  | List "'f Value list"
  | Object "(wstring \<times> 'f Value) list"

text \<open>Modelled from the spec: the conversion of a String Value to its \<^verbatim>\<open>std::wstring\<close>.\<close>

fun wstring_of :: "'f Value \<Rightarrow> wstring" where
  "wstring_of (String s) = s"
| "wstring_of _ = []"

text \<open>Modelled from the spec: the order of \<^verbatim>\<open>std::wstring\<close> keys, code unit by code unit.\<close>

fun wstring_less :: "wstring \<Rightarrow> wstring \<Rightarrow> bool" where
  "wstring_less [] [] = False"
| "wstring_less [] (y # ys) = True"
| "wstring_less (x # xs) [] = False"
| "wstring_less (x # xs) (y # ys) = (x < y \<or> (x = y \<and> wstring_less xs ys))"

text \<open>
  Modelled from the spec: \<^verbatim>\<open>object.insert(std::make_pair(key, value))\<close>, which leaves
  the mapping as it is when the key is present already (the first value inserted for a
  key stays) and stores the pair at the key's place in the order otherwise.
\<close>

fun ordered_insert :: "wstring \<Rightarrow> 'v \<Rightarrow> (wstring \<times> 'v) list \<Rightarrow> (wstring \<times> 'v) list" where
  "ordered_insert k v [] = [(k, v)]"
| "ordered_insert k v ((k', v') # m) =
     (if wstring_less k k' then (k, v) # (k', v') # m
      else (k', v') # ordered_insert k v m)"

definition map_insert :: "wstring \<Rightarrow> 'v \<Rightarrow> (wstring \<times> 'v) list \<Rightarrow> (wstring \<times> 'v) list" where
  "map_insert k v m = (case map_of m k of Some _ \<Rightarrow> m | None \<Rightarrow> ordered_insert k v m)"

subsection \<open>Arithmetic on \<^verbatim>\<open>double\<close>\<close>

text \<open>
  The operations on \<^verbatim>\<open>double\<close> that the sources use, as a parameter: the conversion
  from \<^verbatim>\<open>int\<close>, \<^verbatim>\<open>+\<close>, \<^verbatim>\<open>/\<close>, \<^verbatim>\<open>*\<close>, unary minus and \<^verbatim>\<open>pow\<close>. Nothing is assumed
  about their rounding: what is proved holds for every choice of them.
\<close>

record 'f double_ops =
  d_of_int :: "int \<Rightarrow> 'f"
  d_add :: "'f \<Rightarrow> 'f \<Rightarrow> 'f"
  d_div :: "'f \<Rightarrow> 'f \<Rightarrow> 'f"
  d_mul :: "'f \<Rightarrow> 'f \<Rightarrow> 'f"
  d_neg :: "'f \<Rightarrow> 'f"
  d_pow :: "'f \<Rightarrow> 'f \<Rightarrow> 'f"

text \<open>Exact arithmetic on the real numbers is one such choice.\<close>

definition exact :: "real double_ops" where
  "exact = \<lparr>d_of_int = of_int, d_add = (+), d_div = (/), d_mul = (*),
             d_neg = uminus, d_pow = (powr)\<rparr>"

section \<open>The decoder\<close>

subsection \<open>\<^verbatim>\<open>skip_spaces\<close>\<close>

lemma at_nonzero_less: "data_at data pos \<noteq> 0 \<Longrightarrow> pos < length data"
  by (simp add: data_at_def split: if_splits)

lemma at_measure: "data_at data pos \<noteq> 0 \<Longrightarrow> pos < pos' \<Longrightarrow> length data - pos' < length data - pos"
  using at_nonzero_less [of data pos] by arith

function skip_spaces :: "wstring \<Rightarrow> nat \<Rightarrow> nat" where
  "skip_spaces data pos =
     (if data_at data pos \<noteq> 0 \<and> iswspace (data_at data pos)
      then skip_spaces data (pos + 1)
      else pos)"
  by pat_completeness auto
termination
  by (relation "measure (\<lambda>(data, pos). length data - pos)")
     (auto intro!: at_measure)

declare skip_spaces.simps [simp del]

subsection \<open>\<^verbatim>\<open>compare_forward\<close>\<close>

function compare_loop :: "wstring \<Rightarrow> wstring \<Rightarrow> nat \<Rightarrow> nat \<Rightarrow> nat \<times> nat" where
  "compare_loop data expected datapos exppos =
     (if data_at data datapos \<noteq> 0 \<and> data_at expected exppos \<noteq> 0
         \<and> data_at data datapos = data_at expected exppos
      then compare_loop data expected (datapos + 1) (exppos + 1)
      else (datapos, exppos))"
  by pat_completeness auto
termination
  by (relation "measure (\<lambda>(data, expected, datapos, exppos). length data - datapos)")
     (auto intro!: at_measure)

declare compare_loop.simps [simp del]

text \<open>The result is the returned flag and the cursor after the call.\<close>

definition compare_forward :: "wstring \<Rightarrow> nat \<Rightarrow> wstring \<Rightarrow> bool \<times> nat" where
  "compare_forward data pos expected =
     (case compare_loop data expected pos 0 of
        (datapos, exppos) \<Rightarrow>
          if data_at expected exppos = 0 then (True, datapos) else (False, pos))"

subsection \<open>\<^verbatim>\<open>decode_integer\<close>\<close>

text \<open>
  \<^verbatim>\<open>int res\<close> is a 32-bit word: \<^verbatim>\<open>res * 10 + data[pos] - '0'\<close> wraps around, as the
  specification records for the accumulation.
\<close>

function integer_loop :: "wstring \<Rightarrow> nat \<Rightarrow> int32 \<Rightarrow> int32 \<times> nat" where
  "integer_loop data pos res =
     (if data_at data pos \<noteq> 0 \<and> iswdigit (data_at data pos)
      then integer_loop data (pos + 1) (res * 10 + of_nat (data_at data pos) - 48)
      else (res, pos))"
  by pat_completeness auto
termination
  by (relation "measure (\<lambda>(data, pos, res). length data - pos)")
     (auto intro!: at_measure)

declare integer_loop.simps [simp del]

definition decode_integer :: "wstring \<Rightarrow> nat \<Rightarrow> int32 \<times> nat" where
  "decode_integer data pos = integer_loop data pos 0"

subsection \<open>\<^verbatim>\<open>unescape\<close>\<close>

text \<open>
  The \<^verbatim>\<open>for\<close> loop over the four hexadecimal digits. \<^verbatim>\<open>unsigned code\<close> stays below
  \<open>16 ^ 4\<close>, so the shift never overflows.
\<close>

function hex_loop :: "wstring \<Rightarrow> nat \<Rightarrow> nat \<Rightarrow> nat \<Rightarrow> error + nat" where
  "hex_loop data pos i code =
     (if i < 4 then
        (let code = code * 16; c = data_at data (pos + i) in
         if \<not> iswxdigit c then Inl (InvalidCharacter ''Invalid hex code'' (pos + i))
         else if iswdigit c then hex_loop data pos (i + 1) (code + (c - 48))
         else if isupper c then hex_loop data pos (i + 1) (code + (c - 65 + 10))
         else hex_loop data pos (i + 1) (code + (c - 97 + 10)))
      else Inr code)"
  by pat_completeness auto
termination
  by (relation "measure (\<lambda>(data, pos, i, code). 4 - i)") auto

declare hex_loop.simps [simp del]

definition unescape :: "wstring \<Rightarrow> nat \<Rightarrow> error + wchar \<times> nat" where
  "unescape data pos =
     (let c = data_at data pos in
      if c = Lc CHR ''b'' then Inr (8, pos + 1)
      else if c = Lc CHR ''f'' then Inr (12, pos + 1)
      else if c = Lc CHR ''n'' then Inr (10, pos + 1)
      else if c = Lc CHR ''r'' then Inr (13, pos + 1)
      else if c = Lc CHR ''t'' then Inr (9, pos + 1)
      else if c = Lc CHR 0x22 \<or> c = Lc CHR 0x5C \<or> c = Lc CHR ''/''
        then Inr (data_at data (pos + 1 - 1), pos + 1)
      else if c = Lc CHR ''u'' then
        (case hex_loop data (pos + 1) 0 0 of
           Inl e \<Rightarrow> Inl e
         | Inr code \<Rightarrow> Inr (code, pos + 1 + 4))
      else Inl (InvalidCharacter ''Invalid escape character found'' pos))"

subsection \<open>\<^verbatim>\<open>decode_string\<close>\<close>

lemma unescape_advances:
  "unescape data pos = Inr (c, pos') \<Longrightarrow> pos < pos'"
  by (auto simp: unescape_def Let_def split: if_splits sum.splits)

function string_loop :: "wstring \<Rightarrow> nat \<Rightarrow> bool \<Rightarrow> wstring \<Rightarrow> error + wstring \<times> nat" where
  "string_loop data pos escape str =
     (if data_at data pos \<noteq> 0 \<and> (escape \<or> data_at data pos \<noteq> Lc CHR 0x22) then
        if escape then
          (case unescape data pos of
             Inl e \<Rightarrow> Inl e
           | Inr (c, pos') \<Rightarrow> string_loop data pos' False (str @ [c]))
        else if data_at data pos = Lc CHR 0x5C then string_loop data (pos + 1) True str
        else string_loop data (pos + 1) False (str @ [data_at data pos])
      else Inr (str, pos))"
  by pat_completeness auto
termination
  by (relation "measure (\<lambda>(data, pos, escape, str). length data - pos)")
     (auto intro!: at_measure dest: unescape_advances)

declare string_loop.simps [simp del]


definition decode_string :: "wstring \<Rightarrow> nat \<Rightarrow> error + 'f Value \<times> nat" where
  "decode_string data pos =
     (case string_loop data (pos + 1) False [] of
        Inl e \<Rightarrow> Inl e
      | Inr (str, pos) \<Rightarrow>
          if data_at data pos = 0 then Inl (UnexpectedEof ''Unexpected end of input'' pos)
          else Inr (String str, pos + 1))"

subsection \<open>\<^verbatim>\<open>decode_number\<close>\<close>

text \<open>
  The fractional part: the accumulated \<^verbatim>\<open>remainder\<close>, \<^verbatim>\<open>remainder_count\<close> and the
  cursor. Without a \<^verbatim>\<open>.\<close> both stay at their initial \<open>0\<close>.
\<close>

definition number_fraction :: "wstring \<Rightarrow> nat \<Rightarrow> error + int32 \<times> nat \<times> nat" where
  "number_fraction data pos =
     (if data_at data pos = Lc CHR ''.'' then
        (let pos = pos + 1 in
         if \<not> iswdigit (data_at data pos) then Inl (InvalidCharacter ''Invalid digit'' pos)
         else
           (let oldpos = pos in
            case decode_integer data pos of
              (remainder, pos) \<Rightarrow> Inr (remainder, pos - oldpos, pos)))
      else Inr (0, 0, pos))"

text \<open>
  The exponent part: the accumulated \<^verbatim>\<open>exponent\<close>, \<^verbatim>\<open>neg_exponent\<close> and the cursor.
  Without an \<^verbatim>\<open>e\<close> or \<^verbatim>\<open>E\<close> they stay at their initial \<open>0\<close> and \<open>False\<close>.
\<close>

definition number_exponent :: "wstring \<Rightarrow> nat \<Rightarrow> error + int32 \<times> bool \<times> nat" where
  "number_exponent data pos =
     (if data_at data pos = Lc CHR ''e'' \<or> data_at data pos = Lc CHR ''E'' then
        (let pos = pos + 1 in
         case (if data_at data pos = Lc CHR ''+'' then (False, pos + 1)
               else if data_at data pos = Lc CHR ''-'' then (True, pos + 1)
               else (False, pos)) of
           (neg_exponent, pos) \<Rightarrow>
             if \<not> iswdigit (data_at data pos) then Inl (InvalidCharacter ''Invalid digit'' pos)
             else
               (case decode_integer data pos of
                  (exponent, pos) \<Rightarrow> Inr (exponent, neg_exponent, pos)))
      else Inr (0, False, pos))"

text \<open>The value of lines 221 to 229: \<^verbatim>\<open>res\<close> after the scaling by the exponent.\<close>

definition number_double ::
  "'f double_ops \<Rightarrow> bool \<Rightarrow> int32 \<Rightarrow> int32 \<Rightarrow> nat \<Rightarrow> bool \<Rightarrow> int32 \<Rightarrow> 'f" where
  "number_double fp neg_mantissa integer remainder remainder_count neg_exponent exponent =
     (let res = d_add fp (d_of_int fp (sint integer))
                  (d_div fp (d_of_int fp (sint remainder))
                     (d_pow fp (d_of_int fp 10) (d_of_int fp (int remainder_count))));
          res = (if neg_mantissa then d_neg fp res else res);
          exponent = (if neg_exponent then - exponent else exponent)
      in d_mul fp res (d_pow fp (d_of_int fp 10) (d_of_int fp (sint exponent))))"

definition decode_number :: "'f double_ops \<Rightarrow> wstring \<Rightarrow> nat \<Rightarrow> error + 'f Value \<times> nat" where
  "decode_number fp data pos =
     (case (if data_at data pos = Lc CHR ''-'' then (True, pos + 1) else (False, pos)) of
        (neg_mantissa, pos) \<Rightarrow>
          if \<not> iswdigit (data_at data pos) then Inl (InvalidCharacter ''Invalid digit'' pos)
          else
            (case (if data_at data pos \<noteq> Lc CHR ''0'' then decode_integer data pos
                   else (0, pos + 1)) of
               (integer, pos) \<Rightarrow>
                 (case number_fraction data pos of
                    Inl e \<Rightarrow> Inl e
                  | Inr (remainder, remainder_count, pos) \<Rightarrow>
                      (case number_exponent data pos of
                         Inl e \<Rightarrow> Inl e
                       | Inr (exponent, neg_exponent, pos) \<Rightarrow>
                           if remainder_count = 0 \<and> exponent = 0
                           then Inr (Integer (if neg_mantissa then - integer else integer), pos)
                           else Inr (Float (number_double fp neg_mantissa integer remainder
                                              remainder_count neg_exponent exponent), pos)))))"

subsection \<open>\<^verbatim>\<open>decode_value\<close>, \<^verbatim>\<open>decode_array\<close> and \<^verbatim>\<open>decode_object\<close>\<close>

text \<open>
  The three functions call each other, and the \<^verbatim>\<open>while\<close> loops of the two container
  functions call \<^verbatim>\<open>decode_value\<close>. The first argument after the arithmetic is fuel:
  every call of \<^verbatim>\<open>decode_value\<close> and every test of a loop condition uses one unit, and
  \<open>None\<close> is the result when it runs out. The result of a loop is the state at its
  exit: the container, \<^verbatim>\<open>last\<close> (here \<open>last'\<close>) and the cursor.
\<close>

function (sequential) decode_value :: "'f double_ops \<Rightarrow> nat \<Rightarrow> wstring \<Rightarrow> nat \<Rightarrow> (error + 'f Value \<times> nat) option"
  and decode_array :: "'f double_ops \<Rightarrow> nat \<Rightarrow> wstring \<Rightarrow> nat \<Rightarrow> (error + 'f Value \<times> nat) option"
  and array_loop :: "'f double_ops \<Rightarrow> nat \<Rightarrow> wstring \<Rightarrow> nat \<Rightarrow> bool \<Rightarrow> 'f Value list
                       \<Rightarrow> (error + 'f Value list \<times> bool \<times> nat) option"
  and decode_object :: "'f double_ops \<Rightarrow> nat \<Rightarrow> wstring \<Rightarrow> nat \<Rightarrow> (error + 'f Value \<times> nat) option"
  and object_loop :: "'f double_ops \<Rightarrow> nat \<Rightarrow> wstring \<Rightarrow> nat \<Rightarrow> bool \<Rightarrow> (wstring \<times> 'f Value) list
                       \<Rightarrow> (error + (wstring \<times> 'f Value) list \<times> bool \<times> nat) option"
where
  "decode_value fp 0 data pos = None"
| "decode_value fp (Suc n) data pos =
     (let pos = skip_spaces data pos; c = data_at data pos in
      if c = Lc CHR ''t'' then
        (case compare_forward data pos (L ''true'') of
           (ok, pos) \<Rightarrow>
             if ok then Some (Inr (Boolean True, pos))
             else Some (Inl (InvalidCharacter ''Invalid token found'' pos)))
      else if c = Lc CHR ''f'' then
        (case compare_forward data pos (L ''false'') of
           (ok, pos) \<Rightarrow>
             if ok then Some (Inr (Boolean False, pos))
             else Some (Inl (InvalidCharacter ''Invalid token found'' pos)))
      else if c = Lc CHR ''n'' then
        (case compare_forward data pos (L ''null'') of
           (ok, pos) \<Rightarrow>
             if ok then Some (Inr (Null, pos))
             else Some (Inl (InvalidCharacter ''Invalid token found'' pos)))
      else if c = Lc CHR 0x22 then Some (decode_string data pos)
      else if c = Lc CHR ''{'' then decode_object fp n data pos
      else if c = Lc CHR ''['' then decode_array fp n data pos
      else if iswdigit c \<or> c = Lc CHR ''-'' then Some (decode_number fp data pos)
      else Some (Inl (InvalidCharacter ''Invalid character found'' pos)))"
| "decode_array fp n data pos =
     (let pos = pos + 1;
          pos = skip_spaces data pos in
      case (if data_at data pos \<noteq> Lc CHR '']'' then array_loop fp n data pos False []
            else Some (Inr ([], True, pos))) of
        None \<Rightarrow> None
      | Some (Inl e) \<Rightarrow> Some (Inl e)
      | Some (Inr (list, last', pos)) \<Rightarrow>
          if \<not> last' \<or> data_at data pos \<noteq> Lc CHR '']''
          then Some (Inl (InvalidCharacter ''List ended with an invalid character'' pos))
          else Some (Inr (List list, pos)))"
| "array_loop fp 0 data pos last' list = None"
| "array_loop fp (Suc n) data pos last' list =
     (if data_at data pos \<noteq> 0 \<and> \<not> last' \<and> data_at data pos \<noteq> Lc CHR '']'' then
        (let pos = skip_spaces data pos in
         case decode_value fp n data pos of
           None \<Rightarrow> None
         | Some (Inl e) \<Rightarrow> Some (Inl e)
         | Some (Inr (v, pos)) \<Rightarrow>
             (let list = list @ [v];
                  pos = skip_spaces data pos in
              case (if data_at data pos = Lc CHR '','' then (pos + 1, False) else (pos, True)) of
                (pos, last') \<Rightarrow>
                  (let pos = skip_spaces data pos in
                   array_loop fp n data pos last' list)))
      else Some (Inr (list, last', pos)))"
| "decode_object fp n data pos =
     (let pos = pos + 1;
          pos = skip_spaces data pos in
      case (if data_at data pos \<noteq> Lc CHR ''}'' then object_loop fp n data pos False []
            else Some (Inr ([], True, pos))) of
        None \<Rightarrow> None
      | Some (Inl e) \<Rightarrow> Some (Inl e)
      | Some (Inr (object, last', pos)) \<Rightarrow>
          if \<not> last' \<or> data_at data pos \<noteq> Lc CHR ''}''
          then Some (Inl (InvalidCharacter ''Object ended with invalid character'' pos))
          else Some (Inr (Object object, pos)))"
| "object_loop fp 0 data pos last' object = None"
| "object_loop fp (Suc n) data pos last' object =
     (if data_at data pos \<noteq> 0 \<and> \<not> last' \<and> data_at data pos \<noteq> Lc CHR ''}'' then
        (let pos = skip_spaces data pos in
         if data_at data pos \<noteq> Lc CHR 0x22
         then Some (Inl (InvalidCharacter ''Expected string for key'' pos))
         else
           (case (decode_string data pos :: error + 'f Value \<times> nat) of
              Inl e \<Rightarrow> Some (Inl e)
            | Inr (key, pos) \<Rightarrow>
                (let pos = skip_spaces data pos in
                 if data_at data pos \<noteq> Lc CHR '':''
                 then Some (Inl (InvalidCharacter
                                   (''Expected '' @ [CHR 0x27, CHR '':'', CHR 0x27]) pos))
                 else
                   (let pos = pos + 1;
                        pos = skip_spaces data pos in
                    case decode_value fp n data pos of
                      None \<Rightarrow> None
                    | Some (Inl e) \<Rightarrow> Some (Inl e)
                    | Some (Inr (v, pos)) \<Rightarrow>
                        (let object = map_insert (wstring_of key) v object;
                             pos = skip_spaces data pos in
                         case (if data_at data pos = Lc CHR '','' then (pos + 1, False)
                               else (pos, True)) of
                           (pos, last') \<Rightarrow>
                             (let pos = skip_spaces data pos in
                              object_loop fp n data pos last' object))))))
      else Some (Inr (object, last', pos)))"
  by pat_completeness auto
termination
  by (relation "measure (\<lambda>x. case x of
         Inl (Inl (fp, n, data, pos)) \<Rightarrow> 2 * n
       | Inl (Inr (fp, n, data, pos)) \<Rightarrow> 2 * n + 1
       | Inr (Inl (fp, n, data, pos, l, xs)) \<Rightarrow> 2 * n
       | Inr (Inr (Inl (fp, n, data, pos))) \<Rightarrow> 2 * n + 1
       | Inr (Inr (Inr (fp, n, data, pos, l, xs))) \<Rightarrow> 2 * n)") auto

text \<open>
  \<^verbatim>\<open>decode(const std::wstring &json)\<close>: a fresh cursor at \<open>0\<close>; the cursor after the
  value is dropped. The fuel is enough for every input (\<open>decode_total\<close> below).
\<close>

definition decode :: "'f double_ops \<Rightarrow> wstring \<Rightarrow> (error + 'f Value) option" where
  "decode fp json =
     (case decode_value fp (2 * length json + 2) json 0 of
        None \<Rightarrow> None
      | Some (Inl e) \<Rightarrow> Some (Inl e)
      | Some (Inr (v, pos)) \<Rightarrow> Some (Inr v))"

section \<open>Turns of the container loops\<close>



section \<open>The encoder\<close>

text \<open>
  The encoder writes to a \<^verbatim>\<open>std::wstringstream\<close>; each function of the model returns
  the text that the source function appends to the stream.
\<close>

subsection \<open>Numbers written by the stream\<close>

text \<open>\<^verbatim>\<open>dest << (int)value\<close>: the decimal digits, after a \<^verbatim>\<open>-\<close> when negative.\<close>

function nat_digits :: "nat \<Rightarrow> wstring" where
  "nat_digits n = (if n < 10 then [48 + n] else nat_digits (n div 10) @ [48 + n mod 10])"
  by pat_completeness auto
termination
  by (relation "measure id") auto

declare nat_digits.simps [simp del]

definition show_int :: "int \<Rightarrow> wstring" where
  "show_int i = (if i < 0 then Lc CHR ''-'' # nat_digits (nat (- i)) else nat_digits (nat i))"

text \<open>
  \<^verbatim>\<open>hex\<close>: \<^verbatim>\<open>std::hex << std::setw(4) << std::setfill(L'0') << value\<close> writes the
  lowercase hexadecimal digits of the \<^verbatim>\<open>unsigned\<close> value, filled with \<^verbatim>\<open>0\<close> on the
  left up to a width of four; a longer number is written in full.
\<close>

definition hex_digit :: "nat \<Rightarrow> wchar" where
  "hex_digit d = (if d < 10 then 48 + d else 97 + (d - 10))"

function hex_digits :: "nat \<Rightarrow> wstring" where
  "hex_digits n =
     (if n < 16 then [hex_digit n] else hex_digits (n div 16) @ [hex_digit (n mod 16)])"
  by pat_completeness auto
termination
  by (relation "measure id") auto

declare hex_digits.simps [simp del]

definition hex :: "nat \<Rightarrow> wstring" where
  "hex v = (let tmp = hex_digits v in replicate (4 - length tmp) (Lc CHR ''0'') @ tmp)"

subsection \<open>\<^verbatim>\<open>escape\<close>\<close>

text \<open>
  The argument of \<^verbatim>\<open>hex\<close> in \<^verbatim>\<open>hex(dest, (short)(*it & 0xFFFF))\<close>: the low 16 bits
  of the code unit (\<open>low\<close>), converted to \<^verbatim>\<open>short\<close> (16 bits, two's complement:
  \<open>low - 2 ^ 16\<close> from \<open>2 ^ 15\<close> on), and from there to the parameter's type
  \<^verbatim>\<open>unsigned\<close> (the value modulo \<open>2 ^ 32\<close>).
\<close>

definition hex_argument :: "wchar \<Rightarrow> nat" where
  "hex_argument c =
     (let low = c mod 65536;
          short = (if low < 32768 then int low else int low - 65536)
      in nat (short mod 4294967296))"

fun escape :: "wstring \<Rightarrow> wstring" where
  "escape [] = []"
| "escape (c # cs) =
     (if c = Lc CHR 0x5C then [Lc CHR 0x5C, Lc CHR 0x5C]
      else if c = Lc CHR 0x22 then [Lc CHR 0x5C, Lc CHR 0x22]
      else if c = Lc CHR ''/'' then [Lc CHR 0x5C, Lc CHR ''/'']
      else if c = 8 then [Lc CHR 0x5C, Lc CHR ''b'']
      else if c = 12 then [Lc CHR 0x5C, Lc CHR ''f'']
      else if c = 10 then [Lc CHR 0x5C, Lc CHR ''n'']
      else if c = 13 then [Lc CHR 0x5C, Lc CHR ''r'']
      else if c = 9 then [Lc CHR 0x5C, Lc CHR ''t'']
      else if \<not> iswprint c then [Lc CHR 0x5C, Lc CHR ''u''] @ hex (hex_argument c)
      else [c])
     @ escape cs"

subsection \<open>\<^verbatim>\<open>encode\<close>\<close>

text \<open>
  \<open>encode_list\<close> and \<open>encode_pairs\<close> are the two \<^verbatim>\<open>for\<close> loops over the elements
  of a List and the pairs of an Object, with their flag \<^verbatim>\<open>first\<close>. The text that
  \<^verbatim>\<open>dest << (double)value\<close> writes is the parameter \<open>sh\<close>.
\<close>

fun encode :: "('f \<Rightarrow> wstring) \<Rightarrow> 'f Value \<Rightarrow> wstring"
  and encode_list :: "('f \<Rightarrow> wstring) \<Rightarrow> bool \<Rightarrow> 'f Value list \<Rightarrow> wstring"
  and encode_pairs :: "('f \<Rightarrow> wstring) \<Rightarrow> bool \<Rightarrow> (wstring \<times> 'f Value) list \<Rightarrow> wstring"
where
  "encode sh Null = L ''null''"
| "encode sh (Boolean b) = (if b then L ''true'' else L ''false'')"
| "encode sh (Integer i) = show_int (sint i)"
| "encode sh (Float d) = sh d"
| "encode sh (String s) = [Lc CHR 0x22] @ escape s @ [Lc CHR 0x22]"
| "encode sh (List list) = L ''['' @ encode_list sh True list @ L '']''"
| "encode sh (Object obj) = L ''{'' @ encode_pairs sh True obj @ L ''}''"
| "encode_list sh first [] = []"
| "encode_list sh first (v # vs) =
     (if first then [] else L '', '') @ encode sh v @ encode_list sh False vs"
| "encode_pairs sh first [] = []"
| "encode_pairs sh first ((k, v) # kvs) =
     (if first then [] else L '', '')
     @ [Lc CHR 0x22] @ k @ [Lc CHR 0x22] @ L '':''
     @ encode sh v @ encode_pairs sh False kvs"

section \<open>Notions of the specification\<close>

text \<open>
  The value of a hexadecimal digit, whichever its case: the number that the claim
  about \<^verbatim>\<open>\u\<close> escapes speaks of.
\<close>

definition hex_value :: "wchar \<Rightarrow> nat" where
  "hex_value c = (if c \<le> 57 then c - 48 else if c \<le> 70 then c - 55 else c - 87)"

text \<open>
  The text of a number as the grammar builds it, for the claim about the number
  production: an optional \<^verbatim>\<open>-\<close>, the digits of the integer part, an optional \<^verbatim>\<open>.\<close>
  with the digits of the fraction, and an optional exponent made of \<^verbatim>\<open>e\<close> or \<^verbatim>\<open>E\<close>,
  a sign text and digits. \<open>digits_value\<close> is the value that the digit by digit
  accumulation gives in a 32-bit \<^verbatim>\<open>int\<close>.
\<close>

definition digits_value :: "wstring \<Rightarrow> int32" where
  "digits_value ds = foldl (\<lambda>res c. res * 10 + of_nat c - 48) 0 ds"

definition fraction_text :: "wstring option \<Rightarrow> wstring" where
  "fraction_text fr = (case fr of None \<Rightarrow> [] | Some fs \<Rightarrow> Lc CHR ''.'' # fs)"

definition exponent_text :: "(wchar \<times> wstring \<times> wstring) option \<Rightarrow> wstring" where
  "exponent_text ex = (case ex of None \<Rightarrow> [] | Some (e, sg, es) \<Rightarrow> e # sg @ es)"

definition number_text ::
  "bool \<Rightarrow> wstring \<Rightarrow> wstring option \<Rightarrow> (wchar \<times> wstring \<times> wstring) option \<Rightarrow> wstring" where
  "number_text neg ip fr ex =
     (if neg then L ''-'' else []) @ ip @ fraction_text fr @ exponent_text ex"

definition digits :: "wstring \<Rightarrow> bool" where
  "digits ds = (ds \<noteq> [] \<and> list_all iswdigit ds)"

definition number_token ::
  "wstring \<Rightarrow> wstring option \<Rightarrow> (wchar \<times> wstring \<times> wstring) option \<Rightarrow> bool" where
  "number_token ip fr ex =
     ((ip = L ''0'' \<or> (digits ip \<and> hd ip \<noteq> Lc CHR ''0''))
      \<and> (case fr of None \<Rightarrow> True | Some fs \<Rightarrow> digits fs)
      \<and> (case ex of None \<Rightarrow> True
          | Some (e, sg, es) \<Rightarrow>
              (e = Lc CHR ''e'' \<or> e = Lc CHR ''E'')
              \<and> (sg = [] \<or> sg = L ''+'' \<or> sg = L ''-'') \<and> digits es))"

definition fraction_value :: "wstring option \<Rightarrow> int32" where
  "fraction_value fr = (case fr of None \<Rightarrow> 0 | Some fs \<Rightarrow> digits_value fs)"

definition fraction_digits :: "wstring option \<Rightarrow> nat" where
  "fraction_digits fr = (case fr of None \<Rightarrow> 0 | Some fs \<Rightarrow> length fs)"

definition exponent_value :: "(wchar \<times> wstring \<times> wstring) option \<Rightarrow> int32" where
  "exponent_value ex = (case ex of None \<Rightarrow> 0 | Some (e, sg, es) \<Rightarrow> digits_value es)"

definition exponent_negative :: "(wchar \<times> wstring \<times> wstring) option \<Rightarrow> bool" where
  "exponent_negative ex = (case ex of None \<Rightarrow> False | Some (e, sg, es) \<Rightarrow> sg = L ''-'')"

text \<open>The text behind the number does not go on with it.\<close>

definition ends_number :: "wstring \<Rightarrow> bool" where
  "ends_number rest =
     (\<not> iswdigit (data_at rest 0) \<and> data_at rest 0 \<noteq> Lc CHR ''.''
      \<and> data_at rest 0 \<noteq> Lc CHR ''e'' \<and> data_at rest 0 \<noteq> Lc CHR ''E'')"

text \<open>
  The number that a text of decimal digits denotes, and the formula of the
  specification for a Float, \<open>\<plusminus>(integer + fraction / 10 ^ fractionDigits) \<times> 10 ^ (\<plusminus>exponent)\<close>,
  over the numbers that the parts of the text denote: \<open>i\<close> the integer part, \<open>r\<close> the
  fraction read as a whole number, \<open>k\<close> the count of its digits and \<open>e\<close> the exponent
  with its sign, computed with the operations on \<^verbatim>\<open>double\<close>.
\<close>

definition decimal :: "wstring \<Rightarrow> nat" where
  "decimal ds = foldl (\<lambda>n c. n * 10 + (c - 48)) 0 ds"

definition fraction_decimal :: "wstring option \<Rightarrow> nat" where
  "fraction_decimal fr = (case fr of None \<Rightarrow> 0 | Some fs \<Rightarrow> decimal fs)"

definition exponent_decimal :: "(wchar \<times> wstring \<times> wstring) option \<Rightarrow> nat" where
  "exponent_decimal ex = (case ex of None \<Rightarrow> 0 | Some (e, sg, es) \<Rightarrow> decimal es)"

definition number_formula :: "'f double_ops \<Rightarrow> bool \<Rightarrow> int \<Rightarrow> int \<Rightarrow> nat \<Rightarrow> int \<Rightarrow> 'f" where
  "number_formula fp neg i r k e =
     d_mul fp
       ((if neg then d_neg fp else id)
          (d_add fp (d_of_int fp i)
             (d_div fp (d_of_int fp r) (d_pow fp (d_of_int fp 10) (d_of_int fp (int k))))))
       (d_pow fp (d_of_int fp 10) (d_of_int fp e))"

text \<open>
  No accumulation overflows when the integer part, the fraction and the exponent each
  denote a number below \<open>2 ^ 31\<close>.
\<close>

definition fits_int :: "wstring \<Rightarrow> wstring option \<Rightarrow> (wchar \<times> wstring \<times> wstring) option \<Rightarrow> bool" where
  "fits_int ip fr ex =
     (decimal ip < 2147483648 \<and> fraction_decimal fr < 2147483648
      \<and> exponent_decimal ex < 2147483648)"

section \<open>Running the model\<close>

text \<open>
  The equations that run the decoder and the encoder on a given text. The fuel is a
  numeral there, so the equations for \<open>Suc n\<close> are restated for numerals.
\<close>

lemmas fuel_numeral =
  decode_value.simps(2) [of _ "pred_numeral k" for k, folded numeral_eq_Suc]
  array_loop.simps(2) [of _ "pred_numeral k" for k, folded numeral_eq_Suc]
  object_loop.simps(2) [of _ "pred_numeral k" for k, folded numeral_eq_Suc]

lemma replicate_numeral_unfold:
  "replicate (numeral k) x = x # replicate (pred_numeral k) x"
  by (simp add: numeral_eq_Suc)

lemmas run_decode =
  data_at_def iswspace_def iswdigit_def iswxdigit_def isupper_def
  skip_spaces.simps compare_loop.simps compare_forward_def integer_loop.simps
  decode_integer_def hex_loop.simps unescape_def string_loop.simps decode_string_def
  number_fraction_def number_exponent_def decode_number_def decode_def fuel_numeral
  map_insert_def

lemmas run_encode =
  show_int_def nat_digits.simps hex_def hex_digits.simps hex_digit_def
  hex_argument_def iswprint_def replicate_numeral_unfold


section \<open>Nested containers\<close>

text \<open>
  \<^verbatim>\<open>decode_array\<close> returns with the cursor on the closing bracket, not behind it: there
  is no \<^verbatim>\<open>++pos\<close> before \<^verbatim>\<open>return Value(list)\<close>, while \<^verbatim>\<open>decode_string\<close>,
  \<^verbatim>\<open>decode_number\<close> and \<^verbatim>\<open>compare_forward\<close> all leave the cursor behind what they
  read. \<^verbatim>\<open>decode_object\<close> does the same with its closing brace.
\<close>

lemma decode_array_cursor:
  "decode_array fp n data pos = Some (Inr (v, pos')) \<Longrightarrow> data_at data pos' = Lc CHR '']''"
  by (auto simp: Let_def split: if_splits option.splits sum.splits prod.splits)

lemma decode_object_cursor:
  "decode_object fp n data pos = Some (Inr (v, pos')) \<Longrightarrow> data_at data pos' = Lc CHR ''}''"
  by (auto simp: Let_def split: if_splits option.splits sum.splits prod.splits)

text \<open>
  C1. A nested array or object that is not the final element of its container: the
  claim is that the decoder resumes behind the nested container's closing bracket and
  returns the whole enclosing container. The source does not: the enclosing loop finds
  the nested container's own closing bracket under the cursor, takes it for the end of
  its elements, and the array \<^verbatim>\<open>[1,[2],3]\<close> is decoded as \<^verbatim>\<open>[1,[2]]\<close>, without the
  \<^verbatim>\<open>3\<close>; the object \<^verbatim>\<open>{"a":[1],"b":2}\<close> is rejected at offset 7, at the \<^verbatim>\<open>]\<close>.
\<close>

theorem decode_nested_container_not_resumed:
  \<open>decode fp (L ''[1,[2],3]'') = Some (Inr (List [Integer 1, List [Integer 2]]))
   \<and> decode fp (L ''{"a":[1],"b":2}'')
       = Some (Inl (InvalidCharacter ''Object ended with invalid character'' 7))\<close>
  by (simp add: run_decode)

section \<open>Round trip\<close>

text \<open>
  C2. Decoding the encoder's output gives the value back: the claim fails for a List
  whose first element is a List. \<^verbatim>\<open>[[1], 2]\<close> is the encoding of the List of
  \<^verbatim>\<open>[1]\<close> and \<^verbatim>\<open>2\<close>, and it is decoded as \<^verbatim>\<open>[[1]]\<close>. The encoding \<^verbatim>\<open>[{}]\<close> of
  the List of the empty Object is not decoded at all.
\<close>

theorem roundtrip_nested_list_lost:
  \<open>encode sh (List [List [Integer 1], Integer 2]) = L ''[[1], 2]''
   \<and> decode fp (encode sh (List [List [Integer 1], Integer 2]))
       = Some (Inr (List [List [Integer 1]]))
   \<and> encode sh (List [Object []]) = L ''[{}]''
   \<and> decode fp (encode sh (List [Object []]))
       = Some (Inl (InvalidCharacter ''List ended with an invalid character'' 2))\<close>
  by (simp add: run_decode run_encode)

section \<open>A leading zero\<close>

text \<open>
  C9. A number whose integer part is a \<^verbatim>\<open>0\<close> followed by more digits is not rejected:
  \<^verbatim>\<open>decode_number\<close> reads the \<^verbatim>\<open>0\<close> alone (after an optional \<^verbatim>\<open>-\<close>) and returns
  Integer 0 with the cursor on the next digit, so \<^verbatim>\<open>decode("0123")\<close> is Integer 0 and
  the cursor after the value is 1, in front of \<^verbatim>\<open>123\<close>.
\<close>

theorem leading_zero_stops_number:
  \<open>(data_at data pos = Lc CHR ''0'' \<and> iswdigit (data_at data (pos + 1))
      \<longrightarrow> decode_number fp data pos = Inr (Integer 0, pos + 1))
   \<and> (data_at data pos = Lc CHR ''-'' \<and> data_at data (pos + 1) = Lc CHR ''0''
        \<and> iswdigit (data_at data (pos + 2))
      \<longrightarrow> decode_number fp data pos = Inr (Integer 0, pos + 2))
   \<and> decode_value fp 8 (L ''0123'') 0 = Some (Inr (Integer 0, 1))
   \<and> decode fp (L ''0123'') = Some (Inr (Integer 0))\<close>
proof (intro conjI impI)
  assume "data_at data pos = Lc CHR ''0'' \<and> iswdigit (data_at data (pos + 1))"
  then show "decode_number fp data pos = Inr (Integer 0, pos + 1)"
    by (auto simp: decode_number_def number_fraction_def number_exponent_def iswdigit_def)
next
  assume "data_at data pos = Lc CHR ''-'' \<and> data_at data (pos + 1) = Lc CHR ''0''
        \<and> iswdigit (data_at data (pos + 2))"
  then show "decode_number fp data pos = Inr (Integer 0, pos + 2)"
    by (auto simp: decode_number_def number_fraction_def number_exponent_def iswdigit_def
          numeral_2_eq_2)
next
  show "decode_value fp 8 (L ''0123'') 0 = Some (Inr (Integer 0, 1))"
    by (simp add: run_decode)
next
  show "decode fp (L ''0123'') = Some (Inr (Integer 0))"
    by (simp add: run_decode)
qed

theorem leading_zero_stops_number_witness:
  \<open>data_at (L ''0123'') 0 = Lc CHR ''0'' \<and> iswdigit (data_at (L ''0123'') (0 + 1))
   \<and> decode_number exact (L ''0123'') 0 = Inr (Integer 0, 0 + 1)
   \<and> data_at (L ''-01'') 0 = Lc CHR ''-'' \<and> data_at (L ''-01'') (0 + 1) = Lc CHR ''0''
   \<and> iswdigit (data_at (L ''-01'') (0 + 2))
   \<and> decode_number exact (L ''-01'') 0 = Inr (Integer 0, 0 + 2)\<close>
  using leading_zero_stops_number [of "L ''0123''" 0 exact]
    leading_zero_stops_number [of "L ''-01''" 0 exact]
  by (simp add: data_at_def iswdigit_def)

section \<open>Escaping\<close>

text \<open>
  C4. A code unit that is not printable is written as \<^verbatim>\<open>\u\<close> and exactly four
  hexadecimal digits of its low 16 bits: the claim fails for a code unit whose bit 15
  is set. The conversion to \<^verbatim>\<open>short\<close> makes the low 16 bits negative and the
  conversion to \<^verbatim>\<open>unsigned\<close> extends the sign, so that eight digits are written:
  \<^verbatim>\<open>\uffffffff\<close> for the code unit \<open>0xFFFF\<close> and \<^verbatim>\<open>\uffff8000\<close> for \<open>0x8000\<close>, while
  \<open>0x7FFF\<close> gives \<^verbatim>\<open>\u7fff\<close>.
\<close>

theorem escape_sign_extended_unit:
  \<open>encode sh (String [0xFFFF]) = L ''"'' @ [Lc CHR 0x5C] @ L ''uffffffff"''
   \<and> encode sh (String [0x8000]) = L ''"'' @ [Lc CHR 0x5C] @ L ''uffff8000"''
   \<and> encode sh (String [0x7FFF]) = L ''"'' @ [Lc CHR 0x5C] @ L ''u7fff"''\<close>
  by (simp add: run_encode)

text \<open>
  Which code units are concerned. \<^verbatim>\<open>hex\<close> writes four digits for a number below
  \<open>16 ^ 4\<close> and eight for a number from \<open>16 ^ 7\<close> on; the argument that \<^verbatim>\<open>escape\<close>
  passes is the low 16 bits when bit 15 is clear and the low 16 bits plus
  \<open>0xFFFF0000\<close> when it is set. So every code unit that is written as a \<^verbatim>\<open>\u\<close>
  escape gets four digits when its bit 15 is clear and eight when it is set.
\<close>

lemma hex_digits_length_le:
  "0 < k \<Longrightarrow> n < 16 ^ k \<Longrightarrow> length (hex_digits n) \<le> k"
proof (induction k arbitrary: n)
  case 0
  then show ?case by simp
next
  case (Suc k)
  show ?case
  proof (cases "n < 16")
    case True
    then show ?thesis by (subst hex_digits.simps) simp
  next
    case False
    then have k: "0 < k"
      using Suc.prems(2) by (cases k) simp_all
    have "n div 16 < 16 ^ k"
      using Suc.prems(2) by (simp add: less_mult_imp_div_less mult.commute)
    then have "length (hex_digits (n div 16)) \<le> k"
      using Suc.IH k by blast
    then show ?thesis
      using False by (subst hex_digits.simps) simp
  qed
qed

lemma hex_digits_length_gt:
  "16 ^ k \<le> n \<Longrightarrow> k < length (hex_digits n)"
proof (induction k arbitrary: n)
  case 0
  then show ?case by (subst hex_digits.simps) simp
next
  case (Suc k)
  then have "16 * 16 ^ k \<le> n" by simp
  then have "16 ^ k \<le> n div 16"
    by (simp add: less_eq_div_iff_mult_less_eq mult.commute)
  then have "k < length (hex_digits (n div 16))"
    by (rule Suc.IH)
  moreover have "\<not> n < 16"
  proof -
    have "(1::nat) \<le> 16 ^ k"
      by (rule one_le_power) simp
    with \<open>16 * 16 ^ k \<le> n\<close> show ?thesis by linarith
  qed
  ultimately show ?case
    by (subst hex_digits.simps) simp
qed

lemma hex_four_digits: "n < 65536 \<Longrightarrow> length (hex n) = 4"
  using hex_digits_length_le [of 4 n] by (simp add: hex_def Let_def)

lemma hex_eight_digits:
  assumes "4294901760 \<le> n" and "n < 4294967296"
  shows "length (hex n) = 8"
proof -
  have "7 < length (hex_digits n)"
    using assms(1) by (intro hex_digits_length_gt) simp
  moreover have "length (hex_digits n) \<le> 8"
    using assms(2) by (intro hex_digits_length_le) simp_all
  ultimately show ?thesis
    by (simp add: hex_def Let_def)
qed

lemma hex_argument_cases:
  "hex_argument c =
     (if c mod 65536 < 32768 then c mod 65536 else c mod 65536 + 4294901760)"
proof (cases "c mod 65536 < 32768")
  case True
  then show ?thesis by (simp add: hex_argument_def Let_def)
next
  case False
  have "c mod 65536 < 65536" by simp
  define x where "x = int (c mod 65536) - 65536"
  have x: "- 32768 \<le> x" "x < 0"
    using False \<open>c mod 65536 < 65536\<close> by (simp_all add: x_def)
  have "x mod 4294967296 = (x + 4294967296) mod 4294967296"
    by (simp only: mod_add_self2)
  also have "\<dots> = x + 4294967296"
    using x by (intro mod_pos_pos_trivial) simp_all
  finally have "nat (x mod 4294967296) = c mod 65536 + 4294901760"
    by (simp add: x_def)
  then show ?thesis
    using False by (simp add: hex_argument_def Let_def x_def)
qed

lemma escape_unicode_digits:
  assumes "\<not> iswprint c"
    and "c \<notin> {Lc CHR 0x5C, Lc CHR 0x22, Lc CHR ''/'', 8, 12, 10, 13, 9}"
  shows "escape [c] = [Lc CHR 0x5C, Lc CHR ''u''] @ hex (hex_argument c)"
    and "length (hex (hex_argument c)) = (if c mod 65536 < 32768 then 4 else 8)"
proof -
  show "escape [c] = [Lc CHR 0x5C, Lc CHR ''u''] @ hex (hex_argument c)"
    using assms by simp
  have "c mod 65536 < 65536" by simp
  then show "length (hex (hex_argument c)) = (if c mod 65536 < 32768 then 4 else 8)"
    by (auto simp: hex_argument_cases intro!: hex_four_digits hex_eight_digits)
qed

section \<open>Literals\<close>

text \<open>
  What \<^verbatim>\<open>compare_loop\<close> returns for an expected literal without a code unit \<open>0\<close>:
  when the rest of the literal stands at the cursor, the positions behind it; otherwise
  a position inside the literal.
\<close>

lemma compare_loop_spec:
  assumes "0 \<notin> set e" and "ep \<le> length e"
  shows "(take (length e - ep) (drop dp data) = drop ep e
            \<longrightarrow> compare_loop data e dp ep = (dp + (length e - ep), length e))
         \<and> (take (length e - ep) (drop dp data) \<noteq> drop ep e
            \<longrightarrow> snd (compare_loop data e dp ep) < length e)"
  using assms
proof (induction data e dp ep rule: compare_loop.induct)
  case (1 data expected datapos exppos)
  let ?c = "data_at data datapos \<noteq> 0 \<and> data_at expected exppos \<noteq> 0
         \<and> data_at data datapos = data_at expected exppos"
  show ?case
  proof (cases ?c)
    case True
    then have lt: "exppos < length expected" "datapos < length data"
      by (auto simp: data_at_def split: if_splits)
    with True have eq: "data ! datapos = expected ! exppos"
      by (simp add: data_at_def)
    have d1: "drop datapos data = data ! datapos # drop (Suc datapos) data"
      using lt by (simp add: Cons_nth_drop_Suc)
    have d2: "drop exppos expected = expected ! exppos # drop (Suc exppos) expected"
      using lt by (simp add: Cons_nth_drop_Suc)
    have len: "length expected - exppos = Suc (length expected - Suc exppos)"
      using lt by simp
    have iff: "take (length expected - exppos) (drop datapos data) = drop exppos expected
      \<longleftrightarrow> take (length expected - Suc exppos) (drop (Suc datapos) data) = drop (Suc exppos) expected"
      by (simp only: d1 d2 len take_Suc_Cons list.inject eq simp_thms)
    have le: "exppos + 1 \<le> length expected"
      using lt by simp
    note IH = "1.IH" [OF True "1.prems"(1) le]
    have unfold: "compare_loop data expected datapos exppos = compare_loop data expected (datapos + 1) (exppos + 1)"
      using True by (subst compare_loop.simps) simp
    show ?thesis
    proof (intro conjI impI)
      assume "take (length expected - exppos) (drop datapos data) = drop exppos expected"
      with iff have "take (length expected - (exppos + 1)) (drop (datapos + 1) data) = drop (exppos + 1) expected"
        by simp
      with IH have "compare_loop data expected (datapos + 1) (exppos + 1)
          = (datapos + 1 + (length expected - (exppos + 1)), length expected)"
        by blast
      then show "compare_loop data expected datapos exppos = (datapos + (length expected - exppos), length expected)"
        using lt by (simp add: unfold)
    next
      assume "take (length expected - exppos) (drop datapos data) \<noteq> drop exppos expected"
      with iff have "take (length expected - (exppos + 1)) (drop (datapos + 1) data) \<noteq> drop (exppos + 1) expected"
        by simp
      with IH show "snd (compare_loop data expected datapos exppos) < length expected"
        unfolding unfold by blast
    qed
  next
    case False
    then have stop: "compare_loop data expected datapos exppos = (datapos, exppos)"
      by (subst compare_loop.simps) (simp only: if_False)
    show ?thesis
    proof (cases "exppos = length expected")
      case True
      then show ?thesis using stop by simp
    next
      case ne_len: False
      with "1.prems" have lt: "exppos < length expected" by simp
      then have ne: "expected ! exppos \<noteq> 0"
        using "1.prems"(1) by (metis nth_mem)
      have d2: "drop exppos expected = expected ! exppos # drop (Suc exppos) expected"
        using lt by (simp add: Cons_nth_drop_Suc)
      have "take (length expected - exppos) (drop datapos data) \<noteq> drop exppos expected"
      proof (cases "datapos < length data")
        case True
        then have d1: "drop datapos data = data ! datapos # drop (Suc datapos) data"
          by (simp add: Cons_nth_drop_Suc)
        have len: "length expected - exppos = Suc (length expected - Suc exppos)"
          using lt by simp
        from False True lt ne
        have "data ! datapos \<noteq> expected ! exppos"
          by (auto simp: data_at_def)
        then show ?thesis
          by (simp only: d1 d2 len take_Suc_Cons list.inject simp_thms)
      next
        case False
        then show ?thesis using d2 by simp
      qed
      then show ?thesis using lt by (simp add: stop)
    qed
  qed
qed

lemma compare_forward_spec:
  "0 \<notin> set expected \<Longrightarrow> compare_forward data pos expected =
     (if take (length expected) (drop pos data) = expected
      then (True, pos + length expected) else (False, pos))"
proof -
  assume z: "0 \<notin> set expected"
  note sp = compare_loop_spec [OF z, of 0 pos data, simplified]
  show ?thesis
  proof (cases "take (length expected) (drop pos data) = expected")
    case True
    with sp have "compare_loop data expected pos 0 = (pos + length expected, length expected)"
      by blast
    then show ?thesis using True by (simp add: compare_forward_def data_at_def)
  next
    case False
    with sp have lt: "snd (compare_loop data expected pos 0) < length expected"
      by blast
    have "expected ! snd (compare_loop data expected pos 0) \<noteq> 0"
      using z nth_mem [OF lt] by metis
    with lt have "data_at expected (snd (compare_loop data expected pos 0)) \<noteq> 0"
      by (simp add: data_at_def)
    then show ?thesis using False
      by (auto simp: compare_forward_def split: prod.splits)
  qed
qed


lemma decode_value_literal:
  assumes "(c, lit, v) \<in> {(Lc CHR ''t'', L ''true'', Boolean True),
                            (Lc CHR ''f'', L ''false'', Boolean False),
                            (Lc CHR ''n'', L ''null'', Null)}"
    and "data_at data (skip_spaces data pos) = c"
  shows "decode_value fp (Suc n) data pos =
           (if take (length lit) (drop (skip_spaces data pos) data) = lit
            then Some (Inr (v, skip_spaces data pos + length lit))
            else Some (Inl (InvalidCharacter ''Invalid token found'' (skip_spaces data pos))))"
proof -
  from assms(1) have "c = Lc CHR ''t'' \<and> lit = L ''true'' \<and> v = Boolean True
      \<or> c = Lc CHR ''f'' \<and> lit = L ''false'' \<and> v = Boolean False
      \<or> c = Lc CHR ''n'' \<and> lit = L ''null'' \<and> v = Null"
    by simp
  then show ?thesis
    using assms(2) by (elim disjE conjE) (simp_all add: Let_def compare_forward_spec)
qed

text \<open>
  C7. \<^verbatim>\<open>compare_forward\<close> moves the cursor behind the expected literal when the whole
  literal stands at the cursor, and leaves the cursor where it is otherwise;
  \<^verbatim>\<open>decode_value\<close> then raises InvalidCharacter at the position where the literal began.
  \<^verbatim>\<open>decode("truffle")\<close> fails with InvalidCharacter at offset 0.
\<close>

theorem literal_matching:
  \<open>(0 \<notin> set expected \<longrightarrow>
      compare_forward data pos expected =
        (if take (length expected) (drop pos data) = expected
         then (True, pos + length expected) else (False, pos)))
   \<and> ((c, lit, v) \<in> {(Lc CHR ''t'', L ''true'', Boolean True),
                       (Lc CHR ''f'', L ''false'', Boolean False),
                       (Lc CHR ''n'', L ''null'', Null)}
        \<and> data_at data (skip_spaces data pos) = c \<longrightarrow>
      decode_value fp (Suc n) data pos =
        (if take (length lit) (drop (skip_spaces data pos) data) = lit
         then Some (Inr (v, skip_spaces data pos + length lit))
         else Some (Inl (InvalidCharacter ''Invalid token found'' (skip_spaces data pos)))))
   \<and> decode fp (L ''truffle'') = Some (Inl (InvalidCharacter ''Invalid token found'' 0))\<close>
proof (intro conjI impI)
  assume "0 \<notin> set expected"
  then show "compare_forward data pos expected =
        (if take (length expected) (drop pos data) = expected
         then (True, pos + length expected) else (False, pos))"
    by (rule compare_forward_spec)
next
  assume "(c, lit, v) \<in> {(Lc CHR ''t'', L ''true'', Boolean True),
                       (Lc CHR ''f'', L ''false'', Boolean False),
                       (Lc CHR ''n'', L ''null'', Null)}
        \<and> data_at data (skip_spaces data pos) = c"
  then show "decode_value fp (Suc n) data pos =
        (if take (length lit) (drop (skip_spaces data pos) data) = lit
         then Some (Inr (v, skip_spaces data pos + length lit))
         else Some (Inl (InvalidCharacter ''Invalid token found'' (skip_spaces data pos))))"
    using decode_value_literal [of c lit v data pos fp n] by blast
next
  show "decode fp (L ''truffle'') = Some (Inl (InvalidCharacter ''Invalid token found'' 0))"
    by (simp add: run_decode)
qed

theorem literal_matching_witness:
  \<open>0 \<notin> set (L ''true'')
   \<and> (Lc CHR ''t'', L ''true'', Boolean True)
        \<in> {(Lc CHR ''t'', L ''true'', Boolean True),
            (Lc CHR ''f'', L ''false'', Boolean False),
            (Lc CHR ''n'', L ''null'', Null :: real Value)}
   \<and> data_at (L '' truffle'') (skip_spaces (L '' truffle'') 0) = Lc CHR ''t''
   \<and> compare_forward (L '' truffle'') 1 (L ''true'') = (False, 1)
   \<and> decode_value exact (Suc 0) (L '' truffle'') 0
       = Some (Inl (InvalidCharacter ''Invalid token found'' 1))
   \<and> data_at (L '' true'') (skip_spaces (L '' true'') 0) = Lc CHR ''t''
   \<and> compare_forward (L '' true'') 1 (L ''true'') = (True, 5)
   \<and> decode_value exact (Suc 0) (L '' true'') 0 = Some (Inr (Boolean True, 5))\<close>
  using literal_matching [where expected = "L ''true''" and data = "L '' truffle''"
      and pos = 1 and c = "Lc CHR ''t''" and lit = "L ''true''" and v = "Boolean True"
      and fp = exact and n = 0]
    literal_matching [where expected = "L ''true''" and data = "L '' truffle''"
      and pos = 0 and c = "Lc CHR ''t''" and lit = "L ''true''" and v = "Boolean True"
      and fp = exact and n = 0]
    literal_matching [where expected = "L ''true''" and data = "L '' true''"
      and pos = 1 and c = "Lc CHR ''t''" and lit = "L ''true''" and v = "Boolean True"
      and fp = exact and n = 0]
    literal_matching [where expected = "L ''true''" and data = "L '' true''"
      and pos = 0 and c = "Lc CHR ''t''" and lit = "L ''true''" and v = "Boolean True"
      and fp = exact and n = 0]
  by (simp add: data_at_def skip_spaces.simps iswspace_def)

section \<open>Escapes in strings\<close>

lemma hex_value_less: "iswxdigit c \<Longrightarrow> hex_value c < 16"
  by (auto simp: iswxdigit_def iswdigit_def hex_value_def)

lemma radix_step: "a < m \<Longrightarrow> b < 16 \<Longrightarrow> a * 16 + b < m * (16::nat)"
proof -
  assume "a < m" "b < 16"
  then have "Suc a \<le> m" by simp
  then have "Suc a * 16 \<le> m * 16" by (rule mult_le_mono1)
  with \<open>b < 16\<close> show ?thesis by simp
qed

lemma four_digits_less:
  "a < 16 \<Longrightarrow> b < 16 \<Longrightarrow> c < 16 \<Longrightarrow> d < 16
    \<Longrightarrow> ((a * 16 + b) * 16 + c) * 16 + d < (65536::nat)"
  using radix_step [of "(a * 16 + b) * 16 + c" 4096 d] radix_step [of "a * 16 + b" 256 c]
    radix_step [of a 16 b] by simp

lemma all_less_numeral_unfold:
  "(\<forall>i<numeral k. P i) = (P (pred_numeral k) \<and> (\<forall>i<pred_numeral k. P i))"
  by (simp add: numeral_eq_Suc less_Suc_eq all_conj_distrib) blast

lemma hex_loop_step:
  assumes "i < 4" and "iswxdigit (data_at data (pos + i))"
  shows "hex_loop data pos i code =
           hex_loop data pos (i + 1) (code * 16 + hex_value (data_at data (pos + i)))"
proof -
  let ?c = "data_at data (pos + i)"
  have "iswdigit ?c \<Longrightarrow> ?c - 48 = hex_value ?c"
    by (simp add: iswdigit_def hex_value_def)
  moreover have "\<not> iswdigit ?c \<Longrightarrow> isupper ?c \<Longrightarrow> ?c - 65 + 10 = hex_value ?c"
    using assms(2) by (auto simp: iswxdigit_def iswdigit_def isupper_def hex_value_def)
  moreover have "\<not> iswdigit ?c \<Longrightarrow> \<not> isupper ?c \<Longrightarrow> ?c - 97 + 10 = hex_value ?c"
    using assms(2) by (auto simp: iswxdigit_def iswdigit_def isupper_def hex_value_def)
  ultimately show ?thesis
    using assms by (subst hex_loop.simps) (simp add: Let_def)
qed

lemma hex_loop_bad:
  assumes "i < 4" and "\<not> iswxdigit (data_at data (pos + i))"
  shows "hex_loop data pos i code = Inl (InvalidCharacter ''Invalid hex code'' (pos + i))"
  using assms by (subst hex_loop.simps) (simp add: Let_def)

lemma hex_loop_done: "hex_loop data pos 4 code = Inr code"
  by (subst hex_loop.simps) simp

lemma hex_loop_all:
  assumes "k = 4 - i" and "i \<le> 4"
    and "\<forall>j. i \<le> j \<and> j < 4 \<longrightarrow> iswxdigit (data_at data (pos + j))"
  shows "hex_loop data pos i code =
           Inr (foldl (\<lambda>a j. a * 16 + hex_value (data_at data (pos + j))) code [i..<4])"
  using assms
proof (induction k arbitrary: i code)
  case 0
  then have "i = 4" by simp
  then show ?case by (simp add: hex_loop_done)
next
  case (Suc k)
  then have i: "i < 4" by simp
  then have x: "iswxdigit (data_at data (pos + i))"
    using Suc.prems(3) by simp
  have "hex_loop data pos (i + 1) (code * 16 + hex_value (data_at data (pos + i))) =
          Inr (foldl (\<lambda>a j. a * 16 + hex_value (data_at data (pos + j)))
                 (code * 16 + hex_value (data_at data (pos + i))) [i + 1..<4])"
    using Suc.prems i by (intro Suc.IH) auto
  moreover have "[i..<4] = i # [i + 1..<4]"
    using i by (simp add: upt_conv_Cons)
  ultimately show ?case
    by (simp add: hex_loop_step [OF i x])
qed

lemma hex_loop_first_bad:
  assumes "k = j - i" and "i \<le> j" and "j < 4"
    and "\<forall>m. i \<le> m \<and> m < j \<longrightarrow> iswxdigit (data_at data (pos + m))"
    and "\<not> iswxdigit (data_at data (pos + j))"
  shows "hex_loop data pos i code = Inl (InvalidCharacter ''Invalid hex code'' (pos + j))"
  using assms
proof (induction k arbitrary: i code)
  case 0
  then have "i = j" by simp
  then show ?case using "0.prems" by (simp add: hex_loop_bad)
next
  case (Suc k)
  then have i: "i < 4" "i < j" by simp_all
  then have x: "iswxdigit (data_at data (pos + i))"
    using Suc.prems(4) by simp
  have "hex_loop data pos (i + 1) (code * 16 + hex_value (data_at data (pos + i))) =
          Inl (InvalidCharacter ''Invalid hex code'' (pos + j))"
    using Suc.prems i by (intro Suc.IH) auto
  then show ?case
    by (simp add: hex_loop_step [OF i(1) x])
qed

lemma unescape_u:
  "data_at data pos = Lc CHR ''u'' \<Longrightarrow>
     unescape data pos =
       (case hex_loop data (pos + 1) 0 0 of
          Inl e \<Rightarrow> Inl e
        | Inr code \<Rightarrow> Inr (code, pos + 1 + 4))"
  by (simp add: unescape_def)

lemma unescape_four_digits:
  assumes "data_at data pos = Lc CHR ''u''"
    and "\<forall>i<4. iswxdigit (data_at data (pos + 1 + i))"
  shows "unescape data pos =
           Inr (((hex_value (data_at data (pos + 1)) * 16
                   + hex_value (data_at data (pos + 2))) * 16
                  + hex_value (data_at data (pos + 3))) * 16
                 + hex_value (data_at data (pos + 4)), pos + 5)"
proof -
  have "hex_loop data (pos + 1) 0 0 =
          Inr (foldl (\<lambda>a j. a * 16 + hex_value (data_at data (pos + 1 + j))) 0 [0..<4])"
    using assms(2) by (intro hex_loop_all [of 4]) auto
  moreover have "[0..<4] = [0, 1, 2, 3::nat]"
    by (simp add: upt_rec)
  moreover have p: "pos + 2 = Suc (Suc pos)" "pos + 3 = Suc (Suc (Suc pos))"
    "pos + 4 = Suc (Suc (Suc (Suc pos)))" "pos + 5 = Suc (Suc (Suc (Suc (Suc pos))))"
    by simp_all
  ultimately show ?thesis
    by (simp add: unescape_u [OF assms(1)] p)
qed

lemma unescape_bad_digit:
  assumes "data_at data pos = Lc CHR ''u''" and "i < 4"
    and "\<forall>j<i. iswxdigit (data_at data (pos + 1 + j))"
    and "\<not> iswxdigit (data_at data (pos + 1 + i))"
  shows "unescape data pos = Inl (InvalidCharacter ''Invalid hex code'' (pos + 1 + i))"
proof -
  have "hex_loop data (pos + 1) 0 0 = Inl (InvalidCharacter ''Invalid hex code'' (pos + 1 + i))"
    using assms(2-4) by (intro hex_loop_first_bad [of i i]) auto
  then show ?thesis
    by (simp add: unescape_u [OF assms(1)])
qed

lemma unescape_other:
  assumes \<open>data_at data pos \<notin> set (L ''bfnrt"/u'') \<union> {Lc CHR 0x5C}\<close>
  shows "unescape data pos = Inl (InvalidCharacter ''Invalid escape character found'' pos)"
  using assms by (simp add: unescape_def)

text \<open>
  C8. A \<^verbatim>\<open>\u\<close> escape is read as exactly four hexadecimal digits of either case and
  gives one code unit below \<open>2 ^ 16\<close>; two escapes of a surrogate pair give two code
  units. The first of the four positions that holds no hexadecimal digit is reported
  with InvalidCharacter at its offset, and so is an escape character other than
  \<^verbatim>\<open>b f n r t " \ / u\<close>, at its own offset.
\<close>

theorem unescape_unicode:
  \<open>(data_at data pos = Lc CHR ''u'' \<and> (\<forall>i<4. iswxdigit (data_at data (pos + 1 + i))) \<longrightarrow>
      unescape data pos =
        Inr (((hex_value (data_at data (pos + 1)) * 16
                + hex_value (data_at data (pos + 2))) * 16
               + hex_value (data_at data (pos + 3))) * 16
              + hex_value (data_at data (pos + 4)), pos + 5)
      \<and> ((hex_value (data_at data (pos + 1)) * 16
             + hex_value (data_at data (pos + 2))) * 16
            + hex_value (data_at data (pos + 3))) * 16
           + hex_value (data_at data (pos + 4)) < 65536)
   \<and> (data_at data pos = Lc CHR ''u'' \<and> i < 4
        \<and> (\<forall>j<i. iswxdigit (data_at data (pos + 1 + j)))
        \<and> \<not> iswxdigit (data_at data (pos + 1 + i)) \<longrightarrow>
      unescape data pos = Inl (InvalidCharacter ''Invalid hex code'' (pos + 1 + i)))
   \<and> (data_at data pos \<notin> set (L ''bfnrt"/u'') \<union> {Lc CHR 0x5C} \<longrightarrow>
      unescape data pos = Inl (InvalidCharacter ''Invalid escape character found'' pos))
   \<and> (Lc CHR ''A'' \<le> c \<and> c \<le> Lc CHR ''F'' \<longrightarrow>
      iswxdigit c \<and> iswxdigit (c + 32) \<and> hex_value (c + 32) = hex_value c)
   \<and> decode fp (L ''"'' @ [Lc CHR 0x5C] @ L ''u0041"'') = Some (Inr (String (L ''A'')))
   \<and> decode fp (L ''"'' @ [Lc CHR 0x5C] @ L ''ud83d'' @ [Lc CHR 0x5C] @ L ''uDE00"'')
       = Some (Inr (String [0xD83D, 0xDE00]))\<close>
proof (intro conjI impI)
  assume a: "data_at data pos = Lc CHR ''u'' \<and> (\<forall>i<4. iswxdigit (data_at data (pos + 1 + i)))"
  then show "unescape data pos =
        Inr (((hex_value (data_at data (pos + 1)) * 16
                + hex_value (data_at data (pos + 2))) * 16
               + hex_value (data_at data (pos + 3))) * 16
              + hex_value (data_at data (pos + 4)), pos + 5)"
    by (intro unescape_four_digits) simp_all
  have p: "pos + 2 = Suc (Suc pos)" "pos + 3 = Suc (Suc (Suc pos))"
    "pos + 4 = Suc (Suc (Suc (Suc pos)))"
    by simp_all
  have "hex_value (data_at data (pos + 1)) < 16" "hex_value (data_at data (pos + 2)) < 16"
    "hex_value (data_at data (pos + 3)) < 16" "hex_value (data_at data (pos + 4)) < 16"
    using a [THEN conjunct2, rule_format, of 0] a [THEN conjunct2, rule_format, of 1]
      a [THEN conjunct2, rule_format, of 2] a [THEN conjunct2, rule_format, of 3]
    by (simp_all add: hex_value_less p)
  then show "((hex_value (data_at data (pos + 1)) * 16
             + hex_value (data_at data (pos + 2))) * 16
            + hex_value (data_at data (pos + 3))) * 16
           + hex_value (data_at data (pos + 4)) < 65536"
    by (rule four_digits_less)
next
  assume "data_at data pos = Lc CHR ''u'' \<and> i < 4
        \<and> (\<forall>j<i. iswxdigit (data_at data (pos + 1 + j)))
        \<and> \<not> iswxdigit (data_at data (pos + 1 + i))"
  then show "unescape data pos = Inl (InvalidCharacter ''Invalid hex code'' (pos + 1 + i))"
    by (intro unescape_bad_digit) simp_all
next
  assume \<open>data_at data pos \<notin> set (L ''bfnrt"/u'') \<union> {Lc CHR 0x5C}\<close>
  then show "unescape data pos = Inl (InvalidCharacter ''Invalid escape character found'' pos)"
    by (rule unescape_other)
next
  assume c: "Lc CHR ''A'' \<le> c \<and> c \<le> Lc CHR ''F''"
  then show "iswxdigit c" "iswxdigit (c + 32)" "hex_value (c + 32) = hex_value c"
    by (auto simp: iswxdigit_def iswdigit_def hex_value_def)
next
  show \<open>decode fp (L ''"'' @ [Lc CHR 0x5C] @ L ''u0041"'') = Some (Inr (String (L ''A'')))\<close>
    by (simp add: run_decode)
next
  show \<open>decode fp (L ''"'' @ [Lc CHR 0x5C] @ L ''ud83d'' @ [Lc CHR 0x5C] @ L ''uDE00"'')
       = Some (Inr (String [0xD83D, 0xDE00]))\<close>
    by (simp add: run_decode)
qed

theorem unescape_unicode_witness:
  \<open>data_at (L ''u00e9'') 0 = Lc CHR ''u''
   \<and> iswxdigit (data_at (L ''u00e9'') 1) \<and> iswxdigit (data_at (L ''u00e9'') 2)
   \<and> iswxdigit (data_at (L ''u00e9'') 3) \<and> iswxdigit (data_at (L ''u00e9'') 4)
   \<and> unescape (L ''u00e9'') 0 = Inr (0xE9, 5)
   \<and> unescape (L ''u00E9'') 0 = Inr (0xE9, 5)
   \<and> \<not> iswxdigit (data_at (L ''u00g9'') 3)
   \<and> unescape (L ''u00g9'') 0 = Inl (InvalidCharacter ''Invalid hex code'' 3)
   \<and> data_at (L ''x'') 0 \<notin> set (L ''bfnrt"/u'') \<union> {Lc CHR 0x5C}
   \<and> unescape (L ''x'') 0 = Inl (InvalidCharacter ''Invalid escape character found'' 0)
   \<and> iswxdigit (Lc CHR ''E'') \<and> hex_value (Lc CHR ''e'') = hex_value (Lc CHR ''E'')\<close>
  using unescape_unicode [where data = "L ''u00e9''" and pos = 0 and i = 0
      and c = "Lc CHR ''E''" and fp = exact]
    unescape_unicode [where data = "L ''u00E9''" and pos = 0 and i = 0
      and c = "Lc CHR ''E''" and fp = exact]
    unescape_unicode [where data = "L ''u00g9''" and pos = 0 and i = 2
      and c = "Lc CHR ''E''" and fp = exact]
    unescape_unicode [where data = "L ''x''" and pos = 0 and i = 0
      and c = "Lc CHR ''E''" and fp = exact]
  by (simp add: data_at_def iswxdigit_def iswdigit_def hex_value_def all_less_numeral_unfold)

section \<open>Duplicate keys\<close>

lemma map_of_ordered_insert:
  "map_of m k = None \<Longrightarrow> map_of (ordered_insert k v m) = (map_of m)(k \<mapsto> v)"
  by (induction m) (auto split: if_splits)

lemma map_insert_keeps:
  "map_of m k = Some v \<Longrightarrow> map_of (map_insert k' v' m) k = Some v"
  by (cases "map_of m k'") (auto simp: map_insert_def map_of_ordered_insert)

lemma map_insert_lookup:
  "map_of (map_insert k v m) k = (case map_of m k of None \<Rightarrow> Some v | Some v' \<Rightarrow> Some v')"
  by (cases "map_of m k") (auto simp: map_insert_def map_of_ordered_insert)

lemma object_loop_keeps:
  "object_loop fp n data pos last' object = Some (Inr (object', l, pos'))
    \<Longrightarrow> map_of object k = Some v \<Longrightarrow> map_of object' k = Some v"
proof (induction n arbitrary: pos last' object)
  case 0
  then show ?case by simp
next
  case (Suc n)
  show ?case
  proof (cases "data_at data pos \<noteq> 0 \<and> \<not> last' \<and> data_at data pos \<noteq> Lc CHR ''}''")
    case False
    with Suc.prems show ?thesis by auto
  next
    case True
    have step: "map_of object' k = Some v"
      if "object_loop fp n data p3 l3 (map_insert key val object)
            = Some (Inr (object', l, pos'))" for p3 l3 key val
      using that Suc.IH map_insert_keeps [OF Suc.prems(2)] by blast
    show ?thesis
      using Suc.prems(1) True
      by (auto simp: Let_def split: if_splits sum.splits option.splits prod.splits
            intro: step)
  qed
qed

text \<open>
  C6. A pair whose key the Object holds already is dropped: the loop of
  \<^verbatim>\<open>decode_object\<close> never changes the value stored under a key, an insertion under a
  key gives the value stored before when there is one, and
  \<^verbatim>\<open>decode("{\"a\":1,\"a\":2}")\<close> is the Object with the single pair of \<^verbatim>\<open>a\<close> and 1.
\<close>

theorem decode_object_first_key_wins:
  \<open>(object_loop fp n data pos last' object = Some (Inr (object', l, pos'))
      \<and> map_of object k = Some v \<longrightarrow> map_of object' k = Some v)
   \<and> map_of (map_insert k v m) k
       = (case map_of m k of None \<Rightarrow> Some v | Some v' \<Rightarrow> Some v')
   \<and> decode fp (L ''{"a":1,"a":2}'') = Some (Inr (Object [(L ''a'', Integer 1)]))\<close>
proof (intro conjI impI)
  assume "object_loop fp n data pos last' object = Some (Inr (object', l, pos'))
      \<and> map_of object k = Some v"
  then show "map_of object' k = Some v"
    using object_loop_keeps by blast
next
  show "map_of (map_insert k v m) k
       = (case map_of m k of None \<Rightarrow> Some v | Some v' \<Rightarrow> Some v')"
    by (rule map_insert_lookup)
next
  show \<open>decode fp (L ''{"a":1,"a":2}'') = Some (Inr (Object [(L ''a'', Integer 1)]))\<close>
    by (simp add: run_decode)
qed

theorem decode_object_first_key_wins_witness:
  \<open>object_loop exact 3 (L ''{"a":1,"a":2}'') 7 False [(L ''a'', Integer 1)]
     = Some (Inr ([(L ''a'', Integer 1)], True, 12))
   \<and> map_of [(L ''a'', Integer 1 :: real Value)] (L ''a'') = Some (Integer 1)
   \<and> map_of (map_insert (L ''a'') (Integer 2) [(L ''a'', Integer 1 :: real Value)]) (L ''a'')
       = Some (Integer 1)\<close>
  using decode_object_first_key_wins [where fp = exact and n = 3
      and data = \<open>L ''{"a":1,"a":2}''\<close> and pos = 7 and last' = False
      and object = "[(L ''a'', Integer 1)]" and object' = "[(L ''a'', Integer 1)]"
      and l = True and pos' = 12 and k = "L ''a''" and v = "Integer 1"
      and m = "[(L ''a'', Integer 1)]"]
  by (simp add: run_decode)

section \<open>Object keys in the encoder\<close>

lemma encode_pairs_key:
  "(k, v) \<in> set obj \<Longrightarrow>
     \<exists>pre post. encode_pairs sh first obj
        = pre @ [Lc CHR 0x22] @ k @ [Lc CHR 0x22] @ L '':'' @ encode sh v @ post"
proof (induction obj arbitrary: first)
  case Nil
  then show ?case by simp
next
  case (Cons p obj)
  obtain k' v' where p: "p = (k', v')" by (cases p)
  show ?case
  proof (cases "(k, v) = p")
    case True
    then have "encode_pairs sh first (p # obj)
        = (if first then [] else L '', '') @ [Lc CHR 0x22] @ k @ [Lc CHR 0x22] @ L '':''
          @ encode sh v @ encode_pairs sh False obj"
      by auto
    then show ?thesis by blast
  next
    case False
    with Cons.prems have "(k, v) \<in> set obj" by auto
    then obtain pre post where
      "encode_pairs sh False obj
         = pre @ [Lc CHR 0x22] @ k @ [Lc CHR 0x22] @ L '':'' @ encode sh v @ post"
      using Cons.IH by blast
    then have "encode_pairs sh first (p # obj)
        = ((if first then [] else L '', '') @ [Lc CHR 0x22] @ k' @ [Lc CHR 0x22] @ L '':''
            @ encode sh v' @ pre)
          @ [Lc CHR 0x22] @ k @ [Lc CHR 0x22] @ L '':'' @ encode sh v @ post"
      by (simp add: p)
    then show ?thesis by blast
  qed
qed

text \<open>
  C10. The encoder writes the key of every pair of an Object between two double quotes
  as it is, code unit by code unit, followed by the colon and the value: nothing in
  the key is escaped. The key that is a single double quote is written as \<^verbatim>\<open>"""\<close>,
  while the String of the same text is written as \<^verbatim>\<open>"\""\<close>.
\<close>

theorem encode_object_key_verbatim:
  \<open>((k, v) \<in> set obj \<longrightarrow>
      (\<exists>pre post. encode sh (Object obj)
         = pre @ [Lc CHR 0x22] @ k @ [Lc CHR 0x22] @ L '':'' @ encode sh v @ post))
   \<and> encode sh (Object [(L ''"'', Null)]) = L ''{""":null}''
   \<and> encode sh (String (L ''"'')) = L ''"'' @ [Lc CHR 0x5C] @ L ''""''
   \<and> encode sh (Object [([Lc CHR 0x5C, 1], Boolean True)])
       = L ''{"'' @ [Lc CHR 0x5C, 1] @ L ''":true}''
   \<and> encode sh (String [Lc CHR 0x5C, 1])
       = L ''"'' @ [Lc CHR 0x5C, Lc CHR 0x5C, Lc CHR 0x5C] @ L ''u0001"''\<close>
proof (intro conjI impI)
  assume "(k, v) \<in> set obj"
  then obtain pre post where
    "encode_pairs sh True obj
       = pre @ [Lc CHR 0x22] @ k @ [Lc CHR 0x22] @ L '':'' @ encode sh v @ post"
    using encode_pairs_key by blast
  then have "encode sh (Object obj)
      = (L ''{'' @ pre) @ [Lc CHR 0x22] @ k @ [Lc CHR 0x22] @ L '':'' @ encode sh v
        @ (post @ L ''}'')"
    by simp
  then show "\<exists>pre post. encode sh (Object obj)
         = pre @ [Lc CHR 0x22] @ k @ [Lc CHR 0x22] @ L '':'' @ encode sh v @ post"
    by blast
qed (simp_all add: run_encode)

theorem encode_object_key_verbatim_witness:
  \<open>(L ''a"b'', Null) \<in> set [(L ''a"b'', Null :: real Value)]
   \<and> (\<exists>pre post. encode (\<lambda>d::real. []) (Object [(L ''a"b'', Null)])
         = pre @ L ''"a"b":null'' @ post)\<close>
  using encode_object_key_verbatim [where k = \<open>L ''a"b''\<close> and v = Null
      and obj = \<open>[(L ''a"b'', Null)]\<close> and sh = "\<lambda>d::real. []"]
  by simp

section \<open>Numbers\<close>

lemma data_at_append: "data_at (pre @ xs) (length pre + i) = data_at xs i"
  by (simp add: data_at_def nth_append)

lemma data_at_append0: "data_at (pre @ xs) (length pre) = data_at xs 0"
  using data_at_append [of pre xs 0] by simp

lemma data_at_Cons0: "data_at (x # xs) 0 = x"
  by (simp add: data_at_def)

lemma integer_loop_digits:
  assumes "list_all iswdigit ds" and "\<not> iswdigit (data_at rest 0)"
  shows "integer_loop (pre @ ds @ rest) (length pre) acc
           = (foldl (\<lambda>res c. res * 10 + of_nat c - 48) acc ds, length pre + length ds)"
  using assms(1)
proof (induction ds arbitrary: pre acc)
  case Nil
  have "\<not> iswdigit (data_at (pre @ rest) (length pre))"
    using assms(2) by (simp add: data_at_append0)
  then show ?case
    by (subst integer_loop.simps) simp
next
  case (Cons d ds)
  then have d: "iswdigit d" and ds: "list_all iswdigit ds"
    by simp_all
  have at: "data_at (pre @ d # ds @ rest) (length pre) = d"
    using data_at_append0 [of pre "d # ds @ rest"] by (simp add: data_at_Cons0)
  have "d \<noteq> 0"
    using d by (auto simp: iswdigit_def)
  then have "integer_loop (pre @ (d # ds) @ rest) (length pre) acc
      = integer_loop ((pre @ [d]) @ ds @ rest) (length (pre @ [d])) (acc * 10 + of_nat d - 48)"
    using d by (subst integer_loop.simps) (simp add: at)
  also have "\<dots> = (foldl (\<lambda>res c. res * 10 + of_nat c - 48) (acc * 10 + of_nat d - 48) ds,
                    length (pre @ [d]) + length ds)"
    by (rule Cons.IH [OF ds])
  finally show ?case by simp
qed

lemma decode_integer_digits:
  assumes "list_all iswdigit ds" and "\<not> iswdigit (data_at rest 0)"
  shows "decode_integer (pre @ ds @ rest) (length pre)
           = (digits_value ds, length pre + length ds)"
  using integer_loop_digits [OF assms] by (simp add: decode_integer_def digits_value_def)

lemma digits_hd: "digits ds \<Longrightarrow> iswdigit (data_at (ds @ rest) 0)"
  by (cases ds) (simp_all add: digits_def data_at_Cons0)

lemma number_fraction_text:
  assumes "case fr of None \<Rightarrow> data_at rest 0 \<noteq> Lc CHR ''.'' | Some fs \<Rightarrow> digits fs"
    and "\<not> iswdigit (data_at rest 0)"
  shows "number_fraction (pre @ fraction_text fr @ rest) (length pre)
           = Inr (case fr of None \<Rightarrow> 0 | Some fs \<Rightarrow> digits_value fs,
                  case fr of None \<Rightarrow> 0 | Some fs \<Rightarrow> length fs,
                  length pre + length (fraction_text fr))"
proof (cases fr)
  case None
  then show ?thesis
    using assms(1) by (simp add: number_fraction_def fraction_text_def data_at_append0)
next
  case (Some fs)
  with assms(1) have fs: "digits fs" by simp
  let ?data = "pre @ fraction_text fr @ rest"
  have data: "?data = (pre @ [Lc CHR ''.'']) @ fs @ rest"
    by (simp add: Some fraction_text_def)
  have dot: "data_at ?data (length pre) = Lc CHR ''.''"
    by (simp add: Some fraction_text_def data_at_append0 data_at_Cons0)
  have "data_at ?data (length pre + 1) = data_at (fs @ rest) 0"
    unfolding data using data_at_append0 [of "pre @ [Lc CHR ''.'']" "fs @ rest"] by simp
  then have dig: "iswdigit (data_at ?data (length pre + 1))"
    using digits_hd [OF fs] by simp
  have "decode_integer ?data (length pre + 1) = (digits_value fs, length pre + 1 + length fs)"
    unfolding data
    using decode_integer_digits [of fs rest "pre @ [Lc CHR ''.'']"] fs assms(2)
    by (simp add: digits_def)
  then show ?thesis
    using dot dig by (simp add: number_fraction_def Some fraction_text_def)
qed

lemma number_exponent_text:
  assumes "case ex of None \<Rightarrow> data_at rest 0 \<noteq> Lc CHR ''e'' \<and> data_at rest 0 \<noteq> Lc CHR ''E''
           | Some (e, sg, es) \<Rightarrow>
               (e = Lc CHR ''e'' \<or> e = Lc CHR ''E'')
               \<and> (sg = [] \<or> sg = L ''+'' \<or> sg = L ''-'') \<and> digits es"
    and "\<not> iswdigit (data_at rest 0)"
  shows "number_exponent (pre @ exponent_text ex @ rest) (length pre)
           = Inr (case ex of None \<Rightarrow> 0 | Some (e, sg, es) \<Rightarrow> digits_value es,
                  case ex of None \<Rightarrow> False | Some (e, sg, es) \<Rightarrow> sg = L ''-'',
                  length pre + length (exponent_text ex))"
proof (cases ex)
  case None
  then show ?thesis
    using assms(1) by (simp add: number_exponent_def exponent_text_def data_at_append0)
next
  case (Some t)
  obtain e sg es where t: "t = (e, sg, es)" by (cases t)
  from assms(1) have e: "e = Lc CHR ''e'' \<or> e = Lc CHR ''E''"
    and sg: "sg = [] \<or> sg = L ''+'' \<or> sg = L ''-''" and es: "digits es"
    by (simp_all add: Some t)
  let ?data = "pre @ exponent_text ex @ rest"
  have data: "?data = (pre @ e # sg) @ es @ rest"
    by (simp add: Some t exponent_text_def)
  have ech: "data_at ?data (length pre) = e"
    by (simp add: Some t exponent_text_def data_at_append0 data_at_Cons0)
  have sign: "data_at ?data (length pre + 1) = data_at (sg @ es @ rest) 0"
    using data_at_append0 [of "pre @ [e]" "sg @ es @ rest"]
    by (simp add: Some t exponent_text_def)
  have hd_es: "iswdigit (data_at (es @ rest) 0)"
    by (rule digits_hd [OF es])
  have at_es: "data_at ?data (length pre + 1 + length sg) = data_at (es @ rest) 0"
    unfolding data using data_at_append0 [of "pre @ e # sg" "es @ rest"] by simp
  have int: "decode_integer ?data (length pre + 1 + length sg)
      = (digits_value es, length pre + 1 + length sg + length es)"
    unfolding data
    using decode_integer_digits [of es rest "pre @ e # sg"] es assms(2)
    by (simp add: digits_def)
  from sg show ?thesis
  proof (elim disjE)
    assume s: "sg = []"
    then have "data_at ?data (length pre + 1) \<noteq> Lc CHR ''+''"
      "data_at ?data (length pre + 1) \<noteq> Lc CHR ''-''"
      using sign hd_es by (auto simp: iswdigit_def)
    then show ?thesis
      using e ech int at_es hd_es s
      by (auto simp: number_exponent_def Some t exponent_text_def)
  next
    assume s: "sg = L ''+''"
    then have "data_at ?data (length pre + 1) = Lc CHR ''+''"
      using sign by (simp add: data_at_Cons0)
    then show ?thesis
      using e ech int at_es hd_es s
      by (auto simp: number_exponent_def Some t exponent_text_def)
  next
    assume s: "sg = L ''-''"
    then have "data_at ?data (length pre + 1) = Lc CHR ''-''"
      using sign by (simp add: data_at_Cons0)
    then show ?thesis
      using e ech int at_es hd_es s
      by (auto simp: number_exponent_def Some t exponent_text_def)
  qed
qed

lemma exponent_first:
  assumes "number_token ip fr ex" and "ends_number rest"
  shows "\<not> iswdigit (data_at (exponent_text ex @ rest) 0)"
    and "data_at (exponent_text ex @ rest) 0 \<noteq> Lc CHR ''.''"
  using assms
  by (auto simp: number_token_def ends_number_def exponent_text_def data_at_Cons0
        iswdigit_def split: option.splits)

lemma fraction_first:
  assumes "number_token ip fr ex" and "ends_number rest"
  shows "\<not> iswdigit (data_at (fraction_text fr @ exponent_text ex @ rest) 0)"
  using exponent_first [OF assms]
  by (auto simp: fraction_text_def data_at_Cons0 iswdigit_def split: option.splits)

lemma decode_number_token:
  assumes tok: "number_token ip fr ex" and rest: "ends_number rest"
  shows "decode_number fp (pre @ number_text neg ip fr ex @ rest) (length pre) =
           Inr (if fr = None \<and> (ex = None \<or> exponent_value ex = 0)
                then Integer (if neg then - digits_value ip else digits_value ip)
                else Float (number_double fp neg (digits_value ip) (fraction_value fr)
                              (fraction_digits fr) (exponent_negative ex) (exponent_value ex)),
                length pre + length (number_text neg ip fr ex))"
proof -
  define S where "S = (if neg then L ''-'' else [])"
  define F where "F = fraction_text fr"
  define E where "E = exponent_text ex"
  define data where "data = pre @ number_text neg ip fr ex @ rest"
  define p1 where "p1 = length pre + length S"
  define p2 where "p2 = p1 + length ip"
  define p3 where "p3 = p2 + length F"
  define p4 where "p4 = p3 + length E"
  have data1: "data = (pre @ S) @ ip @ (F @ E @ rest)"
    by (simp add: data_def number_text_def S_def F_def E_def)
  have data2: "data = (pre @ S @ ip) @ F @ (E @ rest)"
    by (simp add: data1)
  have data3: "data = (pre @ S @ ip @ F) @ E @ rest"
    by (simp add: data1)
  have l1: "length (pre @ S) = p1" and l2: "length (pre @ S @ ip) = p2"
    and l3: "length (pre @ S @ ip @ F) = p3"
    by (simp_all add: p1_def p2_def p3_def)
  have ip: "ip \<noteq> []" "list_all iswdigit ip"
    using tok by (auto simp: number_token_def digits_def iswdigit_def)
  then obtain d ds where ipc: "ip = d # ds" and d: "iswdigit d"
    by (cases ip) auto
  have at_p1: "data_at data p1 = d"
    unfolding data1 l1 [symmetric] data_at_append0 by (simp add: ipc data_at_Cons0)
  have sign: "(if data_at data (length pre) = Lc CHR ''-'' then (True, length pre + 1)
               else (False, length pre)) = (neg, p1)"
  proof (cases neg)
    case True
    then have "data = pre @ (Lc CHR ''-'' # ip @ F @ E @ rest)" "p1 = length pre + 1"
      by (simp_all add: data1 S_def p1_def)
    then show ?thesis
      using True by (simp add: data_at_append0 data_at_Cons0)
  next
    case False
    then have "p1 = length pre"
      by (simp add: p1_def S_def)
    then have "data_at data (length pre) = d"
      using at_p1 by simp
    then show ?thesis
      using False d \<open>p1 = length pre\<close> by (auto simp: iswdigit_def)
  qed
  have int: "(if data_at data p1 \<noteq> Lc CHR ''0'' then decode_integer data p1
              else (0, p1 + 1)) = (digits_value ip, p2)"
  proof (cases "d = Lc CHR ''0''")
    case True
    then have "ip = L ''0''"
      using tok ipc by (auto simp: number_token_def)
    then show ?thesis
      using at_p1 True by (simp add: digits_value_def p2_def)
  next
    case False
    have "decode_integer ((pre @ S) @ ip @ (F @ E @ rest)) (length (pre @ S))
        = (digits_value ip, length (pre @ S) + length ip)"
      unfolding F_def E_def
      by (rule decode_integer_digits [OF ip(2) fraction_first [OF tok rest]])
    then have "decode_integer data p1 = (digits_value ip, p2)"
      unfolding data1 [symmetric] l1 p2_def .
    then show ?thesis
      using at_p1 False by simp
  qed
  have "number_fraction ((pre @ S @ ip) @ F @ (E @ rest)) (length (pre @ S @ ip))
      = Inr (case fr of None \<Rightarrow> 0 | Some fs \<Rightarrow> digits_value fs,
             case fr of None \<Rightarrow> 0 | Some fs \<Rightarrow> length fs,
             length (pre @ S @ ip) + length F)"
    unfolding F_def E_def
    using tok exponent_first [OF tok rest]
    by (intro number_fraction_text) (auto simp: number_token_def split: option.splits)
  then have frac: "number_fraction data p2
      = Inr (fraction_value fr, fraction_digits fr, p3)"
    unfolding data2 [symmetric] l2 p3_def fraction_value_def fraction_digits_def .
  have "number_exponent ((pre @ S @ ip @ F) @ E @ rest) (length (pre @ S @ ip @ F))
      = Inr (case ex of None \<Rightarrow> 0 | Some (e, sg, es) \<Rightarrow> digits_value es,
             case ex of None \<Rightarrow> False | Some (e, sg, es) \<Rightarrow> sg = L ''-'',
             length (pre @ S @ ip @ F) + length E)"
    unfolding E_def
    using tok rest
    by (intro number_exponent_text)
       (auto simp: number_token_def ends_number_def split: option.splits)
  then have expo: "number_exponent data p3
      = Inr (exponent_value ex, exponent_negative ex, p4)"
    unfolding data3 [symmetric] l3 p4_def exponent_value_def exponent_negative_def .
  have count: "fraction_digits fr = 0 \<longleftrightarrow> fr = None"
    using tok by (auto simp: fraction_digits_def number_token_def digits_def split: option.splits)
  have none: "ex = None \<Longrightarrow> exponent_value ex = 0"
    by (simp add: exponent_value_def)
  have len: "p4 = length pre + length (number_text neg ip fr ex)"
    by (simp add: p4_def p3_def p2_def p1_def number_text_def S_def F_def E_def)
  have dig: "iswdigit (data_at data p1)"
    using at_p1 d by simp
  have "decode_number fp data (length pre) =
           Inr (if fr = None \<and> (ex = None \<or> exponent_value ex = 0)
                then Integer (if neg then - digits_value ip else digits_value ip)
                else Float (number_double fp neg (digits_value ip) (fraction_value fr)
                              (fraction_digits fr) (exponent_negative ex) (exponent_value ex)),
                p4)"
    unfolding decode_number_def sign prod.case
    using dig count none
    by (simp only: int prod.case frac expo sum.case if_False not_True_eq_False simp_thms)
       auto
  then show ?thesis
    unfolding data_def len .
qed

text \<open>
  With exact arithmetic on the real numbers, the value of a Float is the formula of the
  specification: the sign, times the integer part plus the fraction over the power of
  ten of its digit count, times the power of ten of the signed exponent.
\<close>

lemma number_double_exact:
  "number_double exact neg i r k nege e =
     (if neg then - 1 else 1) * (of_int (sint i) + of_int (sint r) / 10 ^ k)
       * 10 powr of_int (sint (if nege then - e else e))"
  by (simp add: number_double_def exact_def Let_def powr_realpow)

text \<open>
  The 32-bit accumulation of a digit text is the number it denotes, modulo \<open>2 ^ 32\<close>;
  below \<open>2 ^ 31\<close> the \<^verbatim>\<open>int\<close> holds the number itself, and so does its negation.
\<close>

lemma foldl_digits_of_nat:
  "list_all iswdigit ds \<Longrightarrow>
     foldl (\<lambda>res c. res * 10 + of_nat c - 48) (of_nat a :: int32) ds
       = of_nat (foldl (\<lambda>n c. n * 10 + (c - 48)) a ds)"
proof (induction ds arbitrary: a)
  case Nil
  show ?case by simp
next
  case (Cons d ds)
  then have "iswdigit d" and ds: "list_all iswdigit ds"
    by simp_all
  then have d: "48 \<le> d"
    by (simp add: iswdigit_def)
  have eq: "(of_nat a :: int32) * 10 + of_nat d - 48 = of_nat (a * 10 + (d - 48))"
    using d by simp
  have "foldl (\<lambda>res c. res * 10 + of_nat c - 48) (of_nat a :: int32) (d # ds)
      = foldl (\<lambda>res c. res * 10 + of_nat c - 48) (of_nat a * 10 + of_nat d - 48) ds"
    by simp
  also have "\<dots> = foldl (\<lambda>res c. res * 10 + of_nat c - 48) (of_nat (a * 10 + (d - 48))) ds"
    by (simp only: eq)
  also have "\<dots> = of_nat (foldl (\<lambda>n c. n * 10 + (c - 48)) (a * 10 + (d - 48)) ds)"
    by (rule Cons.IH [OF ds])
  finally show ?case by simp
qed

lemma digits_value_decimal:
  "list_all iswdigit ds \<Longrightarrow> digits_value ds = of_nat (decimal ds)"
  using foldl_digits_of_nat [of ds 0] by (simp add: digits_value_def decimal_def)

lemma sint_of_nat_int32:
  assumes "n < 2147483648"
  shows "sint (of_nat n :: int32) = int n" and "sint (- of_nat n :: int32) = - int n"
proof -
  have "signed_take_bit 31 (int n) = int n"
    using assms by (intro signed_take_bit_int_eq_self) simp_all
  then show "sint (of_nat n :: int32) = int n"
    by (simp add: signed_of_nat)
  have "signed_take_bit 31 (- int n) = - int n"
    using assms by (intro signed_take_bit_int_eq_self) simp_all
  moreover have "(- of_nat n :: int32) = word_of_int (- int n)"
    by simp
  ultimately show "sint (- of_nat n :: int32) = - int n"
    by (simp only: signed_of_int) simp
qed

lemma of_nat_int32_eq_0:
  assumes "n < 2147483648"
  shows "(of_nat n :: int32) = 0 \<longleftrightarrow> n = 0"
  using sint_of_nat_int32(1) [OF assms] by (cases "n = 0") auto

lemma number_double_formula:
  "number_double fp neg i r k nege e =
     number_formula fp neg (sint i) (sint r) k (sint (if nege then - e else e))"
  by (simp add: number_double_def number_formula_def Let_def)

lemma number_formula_exact:
  "number_formula exact neg i r k e =
     (if neg then - 1 else 1) * (of_int i + of_int r / 10 ^ k) * 10 powr of_int e"
  by (simp add: number_formula_def exact_def powr_realpow)

lemma decode_number_fitting:
  assumes tok: "number_token ip fr ex" and rest: "ends_number rest"
    and fits: "fits_int ip fr ex"
  shows "decode_number fp (pre @ number_text neg ip fr ex @ rest) (length pre) =
           Inr (if fr = None \<and> (ex = None \<or> exponent_decimal ex = 0)
                then Integer (word_of_int (if neg then - int (decimal ip) else int (decimal ip)))
                else Float (number_formula fp neg (int (decimal ip)) (int (fraction_decimal fr))
                              (fraction_digits fr)
                              (if exponent_negative ex then - int (exponent_decimal ex)
                               else int (exponent_decimal ex))),
                length pre + length (number_text neg ip fr ex))"
proof -
  have ip: "digits_value ip = of_nat (decimal ip)"
    using tok by (intro digits_value_decimal) (auto simp: number_token_def digits_def iswdigit_def)
  have fr: "fraction_value fr = of_nat (fraction_decimal fr)"
    using tok
    by (auto simp: fraction_value_def fraction_decimal_def number_token_def digits_def
          digits_value_decimal split: option.splits)
  have ex: "exponent_value ex = of_nat (exponent_decimal ex)"
    using tok
    by (auto simp: exponent_value_def exponent_decimal_def number_token_def digits_def
          digits_value_decimal split: option.splits)
  have b: "decimal ip < 2147483648" "fraction_decimal fr < 2147483648"
    "exponent_decimal ex < 2147483648"
    using fits by (simp_all add: fits_int_def)
  have zero: "exponent_value ex = 0 \<longleftrightarrow> exponent_decimal ex = 0"
    unfolding ex by (rule of_nat_int32_eq_0 [OF b(3)])
  have int: "(if neg then - digits_value ip else digits_value ip)
      = word_of_int (if neg then - int (decimal ip) else int (decimal ip))"
    by (simp add: ip)
  have float: "number_double fp neg (digits_value ip) (fraction_value fr) (fraction_digits fr)
        (exponent_negative ex) (exponent_value ex)
      = number_formula fp neg (int (decimal ip)) (int (fraction_decimal fr))
          (fraction_digits fr)
          (if exponent_negative ex then - int (exponent_decimal ex)
           else int (exponent_decimal ex))"
    unfolding number_double_formula ip fr ex
    by (simp add: sint_of_nat_int32 [OF b(1)] sint_of_nat_int32 [OF b(2)]
          sint_of_nat_int32 [OF b(3)])
  show ?thesis
    unfolding decode_number_token [OF tok rest] zero int float ..
qed

lemma integer_value_fitting:
  assumes "decimal ip < 2147483648"
  shows "sint (word_of_int (if neg then - int (decimal ip) else int (decimal ip)) :: int32)
           = (if neg then - int (decimal ip) else int (decimal ip))"
  using sint_of_nat_int32 [OF assms] by simp

text \<open>
  C3, as it was stated, asks for a Float whenever a fraction or an exponent is present.
  \<^verbatim>\<open>decode("1e0")\<close> has an exponent and is the Integer 1: the source tests the value
  of \<^verbatim>\<open>exponent\<close>, not its presence.
\<close>

theorem decode_exponent_zero_is_integer:
  \<open>decode exact (L ''1e0'') = Some (Inr (Integer 1))\<close>
  by (simp add: run_decode)

text \<open>
  C3, as the source has it, for a number whose integer part, fraction and exponent each
  denote a number below \<open>2 ^ 31\<close>. The number production returns an Integer exactly
  when the number has no fraction and its exponent is absent or denotes zero (so
  \<^verbatim>\<open>1e0\<close> is the Integer 1), and the Integer is the number that the integer part
  denotes, with the sign. In every other case it returns the Float of the formula over
  the numbers that the integer part, the fraction and the exponent denote, computed with
  the operations on \<^verbatim>\<open>double\<close>; with exact arithmetic that is
  \<open>\<plusminus>(integer + fraction / 10 ^ fractionDigits) \<times> 10 ^ (\<plusminus>exponent)\<close>.
  \<^verbatim>\<open>decode("0")\<close> and \<^verbatim>\<open>decode("-0")\<close> are the Integer 0. With exact arithmetic
  \<^verbatim>\<open>3.14\<close>, \<^verbatim>\<open>1e3\<close> and \<^verbatim>\<open>-2.5e-2\<close> give the Floats 3.14, 1000 and -0.025.
  Nothing is stated here about a number with a part that denotes \<open>2 ^ 31\<close> or more.
\<close>

theorem decode_number_integer_or_float:
  \<open>(number_token ip fr ex \<and> ends_number rest \<and> fits_int ip fr ex \<longrightarrow>
      decode_number fp (pre @ number_text neg ip fr ex @ rest) (length pre) =
        Inr (if fr = None \<and> (ex = None \<or> exponent_decimal ex = 0)
             then Integer (word_of_int (if neg then - int (decimal ip) else int (decimal ip)))
             else Float (number_formula fp neg (int (decimal ip)) (int (fraction_decimal fr))
                           (fraction_digits fr)
                           (if exponent_negative ex then - int (exponent_decimal ex)
                            else int (exponent_decimal ex))),
             length pre + length (number_text neg ip fr ex))
      \<and> sint (word_of_int (if neg then - int (decimal ip) else int (decimal ip)) :: int32)
          = (if neg then - int (decimal ip) else int (decimal ip)))
   \<and> number_formula exact neg i r k e =
       (if neg then - 1 else 1) * (of_int i + of_int r / 10 ^ k) * 10 powr of_int e
   \<and> decode fp (L ''0'') = Some (Inr (Integer 0))
   \<and> decode fp (L ''-0'') = Some (Inr (Integer 0))
   \<and> decode fp (L ''1e0'') = Some (Inr (Integer 1))
   \<and> decode exact (L ''3.14'') = Some (Inr (Float 3.14))
   \<and> decode exact (L ''1e3'') = Some (Inr (Float 1000))
   \<and> decode exact (L ''-2.5e-2'') = Some (Inr (Float (- 0.025)))\<close>
proof (intro conjI impI)
  assume a: "number_token ip fr ex \<and> ends_number rest \<and> fits_int ip fr ex"
  then show "decode_number fp (pre @ number_text neg ip fr ex @ rest) (length pre) =
        Inr (if fr = None \<and> (ex = None \<or> exponent_decimal ex = 0)
             then Integer (word_of_int (if neg then - int (decimal ip) else int (decimal ip)))
             else Float (number_formula fp neg (int (decimal ip)) (int (fraction_decimal fr))
                           (fraction_digits fr)
                           (if exponent_negative ex then - int (exponent_decimal ex)
                            else int (exponent_decimal ex))),
             length pre + length (number_text neg ip fr ex))"
    using decode_number_fitting by blast
  from a have "decimal ip < 2147483648"
    by (simp add: fits_int_def)
  then show "sint (word_of_int (if neg then - int (decimal ip) else int (decimal ip)) :: int32)
          = (if neg then - int (decimal ip) else int (decimal ip))"
    by (rule integer_value_fitting)
next
  show "number_formula exact neg i r k e =
       (if neg then - 1 else 1) * (of_int i + of_int r / 10 ^ k) * 10 powr of_int e"
    by (rule number_formula_exact)
next
  show "decode exact (L ''3.14'') = Some (Inr (Float 3.14))"
    by (simp add: run_decode number_double_exact)
next
  show "decode exact (L ''1e3'') = Some (Inr (Float 1000))"
    by (simp add: run_decode number_double_exact)
next
  show "decode exact (L ''-2.5e-2'') = Some (Inr (Float (- 0.025)))"
    by (simp add: run_decode number_double_exact powr_neg_numeral)
qed (simp_all add: run_decode)

theorem decode_number_integer_or_float_witness:
  \<open>number_token (L ''2'') (Some (L ''5'')) (Some (Lc CHR ''e'', L ''-'', L ''2''))
   \<and> ends_number (L '']'')
   \<and> fits_int (L ''2'') (Some (L ''5'')) (Some (Lc CHR ''e'', L ''-'', L ''2''))
   \<and> decode_number exact (L ''[-2.5e-2]'') 1 = Inr (Float (- 0.025), 8)
   \<and> number_token (L ''17'') None (Some (Lc CHR ''E'', L ''+'', L ''00''))
   \<and> fits_int (L ''17'') None (Some (Lc CHR ''E'', L ''+'', L ''00''))
   \<and> decode_number exact (L ''[17E+00]'') 1 = Inr (Integer 17, 7)
   \<and> number_token (L ''17'') None None
   \<and> fits_int (L ''17'') None None
   \<and> decode_number exact (L ''[-17]'') 1 = Inr (Integer (- 17), 4)
   \<and> sint (- 17 :: int32) = - 17\<close>
  using decode_number_integer_or_float [where fp = exact and pre = "L ''[''"
      and rest = "L '']''" and neg = True and ip = "L ''2''" and fr = "Some (L ''5'')"
      and ex = "Some (Lc CHR ''e'', L ''-'', L ''2'')"]
    decode_number_integer_or_float [where fp = exact and pre = "L ''[''"
      and rest = "L '']''" and neg = False and ip = "L ''17''" and fr = None
      and ex = "Some (Lc CHR ''E'', L ''+'', L ''00'')"]
    decode_number_integer_or_float [where fp = exact and pre = "L ''[''"
      and rest = "L '']''" and neg = True and ip = "L ''17''" and fr = None
      and ex = None]
  by (simp add: number_token_def ends_number_def digits_def iswdigit_def data_at_def
        number_text_def fraction_text_def exponent_text_def decimal_def
        fraction_decimal_def exponent_decimal_def fits_int_def
        fraction_digits_def exponent_negative_def
        number_formula_exact powr_neg_numeral)

section \<open>The fuel is enough\<close>










lemma compare_forward_advances:
  assumes "compare_forward data pos expected = (True, pos')"
    and "0 \<notin> set expected" and "expected \<noteq> []"
  shows "pos < pos'"
  using assms by (auto simp: compare_forward_spec split: if_splits)















section \<open>Rejected texts\<close>


















end
